theory Spec2Isabelle
  imports Main "HOL-Library.Multiset" "HOL-Library.Word" "HOL-Library.List_Lexorder"
begin

section \<open>The shuffle stage of the bulk loader (cmd/bulkloader/shuffle.go)\<close>

text \<open>
  Every fatal path of the source (a Go panic, \<open>x.Check\<close>, \<open>x.AssertTrue\<close>,
  \<open>log.Fatal\<close>) is a value of \<open>error\<close>.
\<close>

datatype error =
    NilDeref           \<comment> \<open>a field read through a nil pointer\<close>
  | IndexOutOfRange    \<comment> \<open>slice index out of range\<close>
  | BadUvarint         \<comment> \<open>\<open>log.Fatal("Could not read uvarint")\<close>\<close>
  | ShortRead          \<comment> \<open>\<open>io.ReadFull\<close> hit the end of the file\<close>
  | UnmarshalFailed    \<comment> \<open>\<open>proto.Unmarshal\<close> returned an error\<close>
  | AssertFailed       \<comment> \<open>\<open>x.AssertTrue\<close> on a false condition\<close>

section \<open>ShardBalancer: mergeMapShardsIntoReduceShards and shardDirs\<close>

text \<open>
  A directory below \<open>TmpDir\<close>: its base name, the bytes of the files it holds itself,
  and the directories that were moved into it. A map shard as the map phase leaves it is
  \<open>ShardDir n b []\<close>; a reduce shard is created empty (\<open>ShardDir n 0 []\<close>) and map
  shards are renamed into it. \<open>TmpDir\<close> itself is the list of its entries, in the order
  \<open>Readdirnames\<close> reports them.
\<close>

datatype shardDir = ShardDir (name: string) (ownBytes: nat) (subdirs: "shardDir list")

fun treeSize :: "shardDir \<Rightarrow> nat" where
  "treeSize (ShardDir n b ds) = b + sum_list (map treeSize ds)"

text \<open>
  Modelled from the spec: \<open>sortBySize\<close> is defined in another file of the package. The
  spec has the map shards sorted "by size, descending" and the reduce shard "with the
  currently smallest cumulative size" chosen, "ties broken arbitrarily, e.g. by original
  ordering"; the model is the stable sort on the size of the directory tree.
\<close>

definition sortBySize :: "shardDir list \<Rightarrow> bool \<Rightarrow> shardDir list" where
  "sortBySize dirs ascending =
     (if ascending then sort_key treeSize dirs else rev (sort_key treeSize (rev dirs)))"

definition shardDirs :: "shardDir list \<Rightarrow> shardDir list" where
  "shardDirs tmpDir = sortBySize tmpDir False"

fun digits :: "nat \<Rightarrow> string" where
  "digits n = (if n < 10 then [''0123456789'' ! n]
               else digits (n div 10) @ [''0123456789'' ! (n mod 10)])"

definition shardName :: "nat \<Rightarrow> string" where
  "shardName i = ''shard_'' @ digits i"

text \<open>
  The second loop of \<open>mergeMapShardsIntoReduceShards\<close>: re-sort the reduce shards
  ascending, in place, and rename the map shard into \<open>reduceShards[0]\<close>. With no reduce
  shard the index panics.
\<close>

fun moveShards :: "shardDir list \<Rightarrow> shardDir list \<Rightarrow> error + shardDir list" where
  "moveShards [] reduceShards = Inr reduceShards"
| "moveShards (shard # rest) reduceShards =
     (case sortBySize reduceShards True of
        [] \<Rightarrow> Inl IndexOutOfRange
      | r # rs \<Rightarrow> moveShards rest (ShardDir (name r) (ownBytes r) (subdirs r @ [shard]) # rs))"

text \<open>
  \<open>tmpDir\<close> holds the map shards only (none of them named \<open>shard_i\<close>), so that after
  the call the entries of \<open>TmpDir\<close> are the reduce shards returned here. The first loop
  runs for \<open>i = 0, ..., ReduceShards - 1\<close>, not at all when \<open>ReduceShards \<le> 0\<close>.
\<close>

definition mergeMapShardsIntoReduceShards :: "int \<Rightarrow> shardDir list \<Rightarrow> error + shardDir list" where
  "mergeMapShardsIntoReduceShards ReduceShards tmpDir =
     (let mapShards = shardDirs tmpDir;
          reduceShards = map (\<lambda>i. ShardDir (shardName i) 0 []) [0..<nat ReduceShards]
      in moveShards mapShards reduceShards)"

definition totalSize :: "shardDir list \<Rightarrow> nat" where
  "totalSize ds = sum_list (map treeSize ds)"

definition largestSize :: "shardDir list \<Rightarrow> nat" where
  "largestSize ds = foldr max (map treeSize ds) 0"

section \<open>ShuffleOrchestrator: the sequential head of shuffler.run\<close>

record options =
  ReduceShards :: int
  NumShufflers :: int
  shardOutputDirs :: "string list"

text \<open>
  \<open>run\<close> up to the loop that starts the merges: the balancer, the listing of the
  reduce shards, the two assertions. The result is the state of \<open>TmpDir\<close> at that
  point, with either the fatal error or the work list of the loop (reduce shard \<open>i\<close>
  with \<open>shardOutputDirs[i]\<close>). The balancer can only fail on \<open>reduceShards[0]\<close> with no
  reduce shard, before any directory is created or renamed, so \<open>TmpDir\<close> is unchanged
  then. The concurrent merges that follow are not part of this function.
\<close>

definition run :: "options \<Rightarrow> shardDir list \<Rightarrow> shardDir list \<times> (error + (shardDir \<times> string) list)" where
  "run opt tmpDir =
     (case mergeMapShardsIntoReduceShards (ReduceShards opt) tmpDir of
        Inl e \<Rightarrow> (tmpDir, Inl e)
      | Inr tmpDir' \<Rightarrow>
          (let dirs = shardDirs tmpDir' in
           if int (length dirs) \<noteq> ReduceShards opt then (tmpDir', Inl AssertFailed)
           else if int (length (shardOutputDirs opt)) \<noteq> ReduceShards opt
             then (tmpDir', Inl AssertFailed)
           else (tmpDir', Inr (zip dirs (shardOutputDirs opt)))))"

section \<open>Properties of the ShardBalancer\<close>

lemma largestSize_ge: "d \<in> set ds \<Longrightarrow> treeSize d \<le> largestSize ds"
  by (induction ds) (auto simp: largestSize_def)

lemma sortBySize_mset [simp]: "mset (sortBySize ds asc) = mset ds"
  by (simp add: sortBySize_def)

lemma sortBySize_length [simp]: "length (sortBySize ds asc) = length ds"
  by (simp add: sortBySize_def)

lemma totalSize_mset: "mset xs = mset ys \<Longrightarrow> totalSize xs = totalSize ys"
  unfolding totalSize_def by (metis mset_map sum_mset_sum_list)

lemma mset_concat_map_cong:
  assumes "mset xs = mset ys"
  shows "mset (concat (map f xs)) = mset (concat (map f ys))"
proof -
  have "mset (concat (map f xs)) = sum_mset (image_mset (\<lambda>x. mset (f x)) (mset xs))"
    by (induction xs) auto
  moreover have "mset (concat (map f ys)) = sum_mset (image_mset (\<lambda>x. mset (f x)) (mset ys))"
    by (induction ys) auto
  ultimately show ?thesis using assms by simp
qed

text \<open>After the ascending sort the first reduce shard is a smallest one.\<close>

lemma sortBySize_asc_head:
  assumes "sortBySize ds True = r # rs"
  shows "\<forall>x \<in> set ds. treeSize r \<le> treeSize x"
proof -
  have "sorted (map treeSize (r # rs))"
    using assms sorted_sort_key [of treeSize ds] by (simp add: sortBySize_def)
  moreover have "set ds = set (r # rs)"
    using assms by (metis sortBySize_mset mset_eq_setD)
  ultimately show ?thesis by auto
qed

lemma least_le_average:
  assumes "\<forall>x \<in> set ds. m \<le> treeSize x" "ds \<noteq> []"
  shows "m \<le> totalSize ds div length ds"
proof -
  have "m * length ds \<le> totalSize ds"
    using assms(1) by (induction ds) (auto simp: totalSize_def)
  then show ?thesis
    using assms(2) by (simp add: less_eq_div_iff_mult_less_eq)
qed

text \<open>
  The invariant of the loop: no reduce shard exceeds the average of what has been
  assigned so far by more than the bound \<open>M\<close> on a single map shard. The shard chosen
  is a smallest one, hence at most the average, and grows by at most \<open>M\<close>.
\<close>

lemma moveShards_balanced:
  assumes "rs \<noteq> []"
    and "\<forall>s \<in> set ss. treeSize s \<le> M"
    and "\<forall>r \<in> set rs. treeSize r \<le> totalSize rs div length rs + M"
  shows "\<exists>rs'. moveShards ss rs = Inr rs' \<and> length rs' = length rs
           \<and> totalSize rs' = totalSize rs + totalSize ss
           \<and> (\<forall>r \<in> set rs'. treeSize r \<le> totalSize rs' div length rs' + M)
           \<and> mset (concat (map subdirs rs')) = mset (concat (map subdirs rs)) + mset ss"
  using assms
proof (induction ss arbitrary: rs)
  case Nil
  then show ?case by (simp add: totalSize_def)
next
  case (Cons s ss)
  obtain r rest where srt: "sortBySize rs True = r # rest"
    using Cons.prems(1) by (metis sortBySize_length length_0_conv neq_Nil_conv)
  let ?r' = "ShardDir (name r) (ownBytes r) (subdirs r @ [s])"
  let ?rs' = "?r' # rest"
  have ms: "mset (r # rest) = mset rs" using srt by (metis sortBySize_mset)
  have len: "length (r # rest) = length rs" using srt by (metis sortBySize_length)
  have tot: "totalSize (r # rest) = totalSize rs" by (rule totalSize_mset [OF ms])
  have setrs: "set (r # rest) = set rs" using ms by (metis mset_eq_setD)
  have r'sz: "treeSize ?r' = treeSize r + treeSize s" by (cases r) simp
  have tot': "totalSize ?rs' = totalSize rs + treeSize s"
    using tot r'sz by (simp add: totalSize_def)
  have least: "treeSize r \<le> totalSize rs div length rs"
    using least_le_average [OF sortBySize_asc_head [OF srt] Cons.prems(1)] .
  have mono: "totalSize rs div length rs \<le> totalSize ?rs' div length ?rs'"
    using tot' len by (simp add: div_le_mono)
  have sM: "treeSize s \<le> M" using Cons.prems(2) by simp
  have bound': "\<forall>x \<in> set ?rs'. treeSize x \<le> totalSize ?rs' div length ?rs' + M"
  proof
    fix x assume "x \<in> set ?rs'"
    then consider "x = ?r'" | "x \<in> set rest" by auto
    then show "treeSize x \<le> totalSize ?rs' div length ?rs' + M"
    proof cases
      case 1
      show ?thesis unfolding 1 using r'sz least mono sM by linarith
    next
      case 2
      then have "x \<in> set rs" using setrs by auto
      then have "treeSize x \<le> totalSize rs div length rs + M" using Cons.prems(3) by blast
      then show ?thesis using mono by linarith
    qed
  qed
  have sm: "\<forall>s \<in> set ss. treeSize s \<le> M" using Cons.prems(2) by simp
  have ne: "?rs' \<noteq> []" by simp
  from Cons.IH [OF ne sm bound']
  obtain rs' where res: "moveShards ss ?rs' = Inr rs' \<and> length rs' = length ?rs'
      \<and> totalSize rs' = totalSize ?rs' + totalSize ss
      \<and> (\<forall>r \<in> set rs'. treeSize r \<le> totalSize rs' div length rs' + M)
      \<and> mset (concat (map subdirs rs')) = mset (concat (map subdirs ?rs')) + mset ss" ..
  from res have r1: "moveShards ss ?rs' = Inr rs'" by (rule conjunct1)
  from res have r2: "length rs' = length ?rs'" by (elim conjE)
  from res have r3: "totalSize rs' = totalSize ?rs' + totalSize ss" by (elim conjE)
  from res have r4: "\<forall>r \<in> set rs'. treeSize r \<le> totalSize rs' div length rs' + M"
    by (elim conjE)
  from res have r5: "mset (concat (map subdirs rs')) = mset (concat (map subdirs ?rs')) + mset ss"
    by (elim conjE)
  have sub: "mset (concat (map subdirs (r # rest))) = mset (concat (map subdirs rs))"
    by (rule mset_concat_map_cong [OF ms])
  have sub': "mset (concat (map subdirs ?rs')) = mset (concat (map subdirs rs)) + {#s#}"
    using sub by simp
  have run: "moveShards (s # ss) rs = Inr rs'"
    using srt r1 by simp
  have c1: "length rs' = length rs" using r2 len by simp
  have c2: "totalSize rs' = totalSize rs + totalSize (s # ss)"
    unfolding r3 tot' by (simp add: totalSize_def)
  have c3: "mset (concat (map subdirs rs')) = mset (concat (map subdirs rs)) + mset (s # ss)"
    unfolding r5 sub' by simp
  show ?case
    using run c1 c2 r4 c3 by blast
qed

text \<open>A reduce shard holds no file of its own: its size is the sum of its map shards.\<close>

lemma moveShards_ownBytes:
  "moveShards ss rs = Inr rs' \<Longrightarrow> \<forall>r \<in> set rs. ownBytes r = 0 \<Longrightarrow> \<forall>r \<in> set rs'. ownBytes r = 0"
proof (induction ss arbitrary: rs)
  case Nil
  then show ?case by simp
next
  case (Cons s ss)
  show ?case
  proof (cases "sortBySize rs True")
    case Nil
    then show ?thesis using Cons.prems(1) by simp
  next
    case (Cons r rest)
    have "set (r # rest) = set rs"
      using Cons by (metis sortBySize_mset mset_eq_setD)
    then have z: "\<forall>x \<in> set (ShardDir (name r) (ownBytes r) (subdirs r @ [s]) # rest). ownBytes x = 0"
      using Cons.prems(2) by auto
    have "moveShards ss (ShardDir (name r) (ownBytes r) (subdirs r @ [s]) # rest) = Inr rs'"
      using Cons.prems(1) Cons by simp
    from Cons.IH [OF this z] show ?thesis .
  qed
qed

lemma treeSize_own0: "ownBytes r = 0 \<Longrightarrow> treeSize r = totalSize (subdirs r)"
  by (cases r) (simp add: totalSize_def)

lemma distinct_concat_unique:
  "distinct (concat xss) \<Longrightarrow> i < length xss \<Longrightarrow> j < length xss
     \<Longrightarrow> x \<in> set (xss ! i) \<Longrightarrow> x \<in> set (xss ! j) \<Longrightarrow> i = j"
proof (induction xss arbitrary: i j)
  case Nil
  then show ?case by simp
next
  case (Cons xs xss)
  show ?case
  proof (cases i)
    case 0
    show ?thesis
    proof (cases j)
      case 0
      with \<open>i = 0\<close> show ?thesis by simp
    next
      case (Suc j')
      then have "x \<in> set (concat xss)" using Cons.prems(3,5) by auto
      moreover have "x \<in> set xs" using Cons.prems(4) \<open>i = 0\<close> by simp
      ultimately show ?thesis using Cons.prems(1) by auto
    qed
  next
    case (Suc i')
    show ?thesis
    proof (cases j)
      case 0
      have "x \<in> set (concat xss)" using Cons.prems(2,4) Suc by auto
      moreover have "x \<in> set xs" using Cons.prems(5) 0 by simp
      ultimately show ?thesis using Cons.prems(1) by auto
    next
      case (Suc j')
      have "i' = j'"
        using Cons.IH [of i' j'] Cons.prems \<open>i = Suc i'\<close> Suc by simp
      then show ?thesis using \<open>i = Suc i'\<close> Suc by simp
    qed
  qed
qed

lemma mergeMapShards_result:
  assumes "1 \<le> N"
  shows "\<exists>rs. mergeMapShardsIntoReduceShards N tmpDir = Inr rs
           \<and> int (length rs) = N
           \<and> mset (concat (map subdirs rs)) = mset tmpDir
           \<and> (\<forall>r \<in> set rs. treeSize r = totalSize (subdirs r))
           \<and> (\<forall>r \<in> set rs. treeSize r \<le> totalSize tmpDir div nat N + largestSize tmpDir)"
proof -
  let ?ms = "shardDirs tmpDir"
  let ?rs0 = "map (\<lambda>i. ShardDir (shardName i) 0 []) [0..<nat N]"
  have ne: "?rs0 \<noteq> []" using assms by simp
  have tot0: "totalSize ?rs0 = 0" by (simp add: totalSize_def)
  have msm: "mset ?ms = mset tmpDir" by (simp add: shardDirs_def)
  have small: "\<forall>s \<in> set ?ms. treeSize s \<le> largestSize tmpDir"
    using msm largestSize_ge by (metis mset_eq_setD)
  have init: "\<forall>r \<in> set ?rs0. treeSize r \<le> totalSize ?rs0 div length ?rs0 + largestSize tmpDir"
    by auto
  from moveShards_balanced [OF ne small init]
  obtain rs where res: "moveShards ?ms ?rs0 = Inr rs \<and> length rs = length ?rs0
      \<and> totalSize rs = totalSize ?rs0 + totalSize ?ms
      \<and> (\<forall>r \<in> set rs. treeSize r \<le> totalSize rs div length rs + largestSize tmpDir)
      \<and> mset (concat (map subdirs rs)) = mset (concat (map subdirs ?rs0)) + mset ?ms" ..
  from res have r1: "moveShards ?ms ?rs0 = Inr rs" by (rule conjunct1)
  from res have r2: "length rs = length ?rs0" by (elim conjE)
  from res have r3: "totalSize rs = totalSize ?rs0 + totalSize ?ms" by (elim conjE)
  from res have r4: "\<forall>r \<in> set rs. treeSize r \<le> totalSize rs div length rs + largestSize tmpDir"
    by (elim conjE)
  from res have r5: "mset (concat (map subdirs rs)) = mset (concat (map subdirs ?rs0)) + mset ?ms"
    by (elim conjE)
  have c1: "mergeMapShardsIntoReduceShards N tmpDir = Inr rs"
    using r1 by (simp add: mergeMapShardsIntoReduceShards_def)
  have len: "length rs = nat N" using r2 by simp
  have c2: "int (length rs) = N" using len assms by simp
  have empty0: "concat (map subdirs ?rs0) = []" by (induction "nat N") auto
  have c3: "mset (concat (map subdirs rs)) = mset tmpDir"
    unfolding r5 empty0 using msm by simp
  have tot: "totalSize rs = totalSize tmpDir"
    unfolding r3 tot0 using totalSize_mset [OF msm] by simp
  have c6: "\<forall>r \<in> set rs. treeSize r \<le> totalSize tmpDir div nat N + largestSize tmpDir"
    using r4 unfolding tot len .
  have own: "\<forall>r \<in> set rs. ownBytes r = 0"
    by (rule moveShards_ownBytes [OF r1]) simp
  have c5: "\<forall>r \<in> set rs. treeSize r = totalSize (subdirs r)"
    using own treeSize_own0 by blast
  show ?thesis using c1 c2 c3 c5 c6 by blast
qed

text \<open>
  C6. For every list of map shards (sizes are natural numbers) and every reduce-shard
  count \<open>N \<ge> 1\<close> the balancer returns \<open>N\<close> reduce shards; the map shards in them are,
  as a multiset, the map shards given, so every map shard is in exactly one reduce shard
  (when the directories are distinct, in exactly one position of the result); the size of
  a reduce shard is the sum of the sizes of its map shards; and no reduce shard is larger
  than the sum of all sizes divided by \<open>N\<close> (rounded down) plus the largest single size.
\<close>

theorem balancer_assigns_once_within_bound:
  assumes "1 \<le> N"
  shows "\<exists>rs. mergeMapShardsIntoReduceShards N tmpDir = Inr rs
           \<and> int (length rs) = N
           \<and> mset (concat (map subdirs rs)) = mset tmpDir
           \<and> (distinct tmpDir \<longrightarrow>
                (\<forall>s \<in> set tmpDir. \<exists>!i. i < length rs \<and> s \<in> set (subdirs (rs ! i))))
           \<and> (\<forall>r \<in> set rs. treeSize r = totalSize (subdirs r))
           \<and> (\<forall>r \<in> set rs. treeSize r \<le> totalSize tmpDir div nat N + largestSize tmpDir)"
proof -
  from mergeMapShards_result [OF assms, of tmpDir]
  obtain rs where res: "mergeMapShardsIntoReduceShards N tmpDir = Inr rs
           \<and> int (length rs) = N
           \<and> mset (concat (map subdirs rs)) = mset tmpDir
           \<and> (\<forall>r \<in> set rs. treeSize r = totalSize (subdirs r))
           \<and> (\<forall>r \<in> set rs. treeSize r \<le> totalSize tmpDir div nat N + largestSize tmpDir)" ..
  from res have c3: "mset (concat (map subdirs rs)) = mset tmpDir" by (elim conjE)
  have c4: "distinct tmpDir \<longrightarrow>
      (\<forall>s \<in> set tmpDir. \<exists>!i. i < length rs \<and> s \<in> set (subdirs (rs ! i)))"
  proof (intro impI ballI)
    fix s assume d: "distinct tmpDir" and s: "s \<in> set tmpDir"
    have dc: "distinct (concat (map subdirs rs))"
      using c3 d by (metis mset_eq_imp_distinct_iff)
    have "s \<in> set (concat (map subdirs rs))"
      using c3 s by (metis mset_eq_setD)
    then obtain r where r: "r \<in> set rs" "s \<in> set (subdirs r)"
      by auto
    from r(1) obtain i where "i < length rs" "rs ! i = r"
      by (metis in_set_conv_nth)
    with r(2) have i: "i < length rs" "s \<in> set (subdirs (rs ! i))"
      by simp_all
    show "\<exists>!i. i < length rs \<and> s \<in> set (subdirs (rs ! i))"
    proof (rule ex1I [of _ i])
      show "i < length rs \<and> s \<in> set (subdirs (rs ! i))" using i by simp
    next
      fix j assume j: "j < length rs \<and> s \<in> set (subdirs (rs ! j))"
      show "j = i"
        using distinct_concat_unique [OF dc, of j i s] i j by simp
    qed
  qed
  show ?thesis using res c4 by blast
qed

theorem balancer_assigns_once_within_bound_witness:
  "(1::int) \<le> 3
   \<and> (\<exists>rs. mergeMapShardsIntoReduceShards 3
             [ShardDir ''000'' 7 [], ShardDir ''001'' 2 [], ShardDir ''002'' 4 [], ShardDir ''003'' 4 []] = Inr rs
           \<and> int (length rs) = 3
           \<and> mset (concat (map subdirs rs))
               = mset [ShardDir ''000'' 7 [], ShardDir ''001'' 2 [], ShardDir ''002'' 4 [], ShardDir ''003'' 4 []]
           \<and> (distinct [ShardDir ''000'' 7 [], ShardDir ''001'' 2 [], ShardDir ''002'' 4 [], ShardDir ''003'' 4 []] \<longrightarrow>
                (\<forall>s \<in> set [ShardDir ''000'' 7 [], ShardDir ''001'' 2 [], ShardDir ''002'' 4 [], ShardDir ''003'' 4 []].
                   \<exists>!i. i < length rs \<and> s \<in> set (subdirs (rs ! i))))
           \<and> (\<forall>r \<in> set rs. treeSize r = totalSize (subdirs r))
           \<and> (\<forall>r \<in> set rs. treeSize r
                 \<le> totalSize [ShardDir ''000'' 7 [], ShardDir ''001'' 2 [], ShardDir ''002'' 4 [], ShardDir ''003'' 4 []] div nat 3
                    + largestSize [ShardDir ''000'' 7 [], ShardDir ''001'' 2 [], ShardDir ''002'' 4 [], ShardDir ''003'' 4 []]))"
proof -
  have h: "(1::int) \<le> 3" by simp
  show ?thesis by (rule conjI [OF h balancer_assigns_once_within_bound [OF h]])
qed

text \<open>
  The sizes of the map shards in the order \<open>shardDirs\<close> hands them to the balancer, for
  four shards of sizes 10, 9, 5 and 5 in any order of the directory listing.
\<close>

lemma sortBySize_desc_sorted: "sorted (rev (map treeSize (sortBySize ds False)))"
  by (simp add: sortBySize_def rev_map [symmetric] del: rev_map)

lemma shardDirs_10_9_5_5:
  assumes "mset (map treeSize ds) = {#10, 9, 5, 5#}"
  shows "map treeSize (shardDirs ds) = [10, 9, 5, 5]"
proof -
  let ?xs = "rev (map treeSize (shardDirs ds))"
  have s: "sorted ?xs" unfolding shardDirs_def by (rule sortBySize_desc_sorted)
  have "mset ?xs = mset (map treeSize ds)"
    by (simp add: shardDirs_def)
  then have m: "mset ?xs = mset [5, 5, 9, 10::nat]" using assms by (simp add: add.commute)
  have "sort [5, 5, 9, 10::nat] = ?xs" by (rule properties_for_sort [OF m s])
  then have "?xs = [5, 5, 9, 10]" by simp
  then have "rev ?xs = rev [5, 5, 9, 10]" by (rule arg_cong)
  then show ?thesis by simp
qed

text \<open>
  C7. Four map shards of sizes 10, 9, 5 and 5 (whatever their names and the order in which
  the directory lists them) and 2 reduce shards: the balancer puts 10 and 5 into one
  reduce shard and 9 and 5 into the other, so the reduce shards have sizes 15 and 14
  (and not 19 and 10).
\<close>

theorem balancer_example_10_9_5_5:
  assumes "mset (map treeSize tmpDir) = {#10, 9, 5, 5#}"
  shows "\<exists>rs. mergeMapShardsIntoReduceShards 2 tmpDir = Inr rs
           \<and> map treeSize rs = [15, 14]
           \<and> map (\<lambda>r. map treeSize (subdirs r)) rs = [[10, 5], [9, 5]]"
proof -
  have "map treeSize (shardDirs tmpDir) = [10, 9, 5, 5]" by (rule shardDirs_10_9_5_5 [OF assms])
  then obtain a b c d where abcd: "shardDirs tmpDir = [a, b, c, d]"
    and sz: "treeSize a = 10" "treeSize b = 9" "treeSize c = 5" "treeSize d = 5"
    by (auto simp: map_eq_Cons_conv)
  have "moveShards [a, b, c, d] [ShardDir (shardName 0) 0 [], ShardDir (shardName 1) 0 []]
      = Inr [ShardDir (shardName 0) 0 [a, d], ShardDir (shardName 1) 0 [b, c]]"
    by (simp add: sortBySize_def sz)
  then have "mergeMapShardsIntoReduceShards 2 tmpDir
      = Inr [ShardDir (shardName 0) 0 [a, d], ShardDir (shardName 1) 0 [b, c]]"
    by (simp add: mergeMapShardsIntoReduceShards_def abcd upt_rec)
  then show ?thesis by (simp add: sz)
qed

theorem balancer_example_10_9_5_5_witness:
  "mset (map treeSize [ShardDir ''002'' 5 [], ShardDir ''000'' 10 [], ShardDir ''003'' 5 [], ShardDir ''001'' 9 []])
      = {#10, 9, 5, 5#}
   \<and> (\<exists>rs. mergeMapShardsIntoReduceShards 2
           [ShardDir ''002'' 5 [], ShardDir ''000'' 10 [], ShardDir ''003'' 5 [], ShardDir ''001'' 9 []] = Inr rs
           \<and> map treeSize rs = [15, 14]
           \<and> map (\<lambda>r. map treeSize (subdirs r)) rs = [[10, 5], [9, 5]])"
proof -
  have h: "mset (map treeSize [ShardDir ''002'' 5 [], ShardDir ''000'' 10 [], ShardDir ''003'' 5 [], ShardDir ''001'' 9 []])
      = {#10, 9, 5, 5#}" by simp
  show ?thesis by (rule conjI [OF h balancer_example_10_9_5_5 [OF h]])
qed

section \<open>The precondition checks of shuffler.run\<close>

text \<open>
  C8, as the claim states it, fails: with one reduce shard, no output directory and one
  map shard, \<open>run\<close> stops on the assertion, and by then the map shard has been renamed
  into \<open>shard_0\<close>.
\<close>

theorem run_check_before_relocation_counterexample:
  "int (length (shardOutputDirs \<lparr>ReduceShards = 1, NumShufflers = 1, shardOutputDirs = []\<rparr>))
     \<noteq> ReduceShards \<lparr>ReduceShards = 1, NumShufflers = 1, shardOutputDirs = []\<rparr>
   \<and> run \<lparr>ReduceShards = 1, NumShufflers = 1, shardOutputDirs = []\<rparr> [ShardDir ''000'' 7 []]
       = ([ShardDir ''shard_0'' 0 [ShardDir ''000'' 7 []]], Inl AssertFailed)
   \<and> fst (run \<lparr>ReduceShards = 1, NumShufflers = 1, shardOutputDirs = []\<rparr> [ShardDir ''000'' 7 []])
       \<noteq> [ShardDir ''000'' 7 []]"
  by (simp add: run_def mergeMapShardsIntoReduceShards_def shardDirs_def sortBySize_def
      shardName_def)

text \<open>
  C8, amended. When the number of output directories differs from \<open>ReduceShards\<close>,
  \<open>run\<close> ends in a fatal error and never reaches the loop that opens the stores and
  starts the merges. With at least one reduce shard the error is the failed assertion,
  and it is raised after \<open>mergeMapShardsIntoReduceShards\<close> has returned: \<open>TmpDir\<close> then
  holds the reduce shards, with every map shard moved into one of them.
\<close>

theorem run_output_dirs_mismatch_fatal:
  assumes "int (length (shardOutputDirs opt)) \<noteq> ReduceShards opt"
  shows "(\<exists>e. snd (run opt tmpDir) = Inl e)
       \<and> (1 \<le> ReduceShards opt \<longrightarrow>
            snd (run opt tmpDir) = Inl AssertFailed
          \<and> mergeMapShardsIntoReduceShards (ReduceShards opt) tmpDir = Inr (fst (run opt tmpDir))
          \<and> mset (concat (map subdirs (fst (run opt tmpDir)))) = mset tmpDir)"
proof
  show "\<exists>e. snd (run opt tmpDir) = Inl e"
    using assms by (auto simp: run_def Let_def split: sum.splits)
next
  show "1 \<le> ReduceShards opt \<longrightarrow>
            snd (run opt tmpDir) = Inl AssertFailed
          \<and> mergeMapShardsIntoReduceShards (ReduceShards opt) tmpDir = Inr (fst (run opt tmpDir))
          \<and> mset (concat (map subdirs (fst (run opt tmpDir)))) = mset tmpDir"
  proof
    assume n: "1 \<le> ReduceShards opt"
    from mergeMapShards_result [OF n, of tmpDir]
    obtain rs where rs: "mergeMapShardsIntoReduceShards (ReduceShards opt) tmpDir = Inr rs"
      "mset (concat (map subdirs rs)) = mset tmpDir" by blast
    show "snd (run opt tmpDir) = Inl AssertFailed
          \<and> mergeMapShardsIntoReduceShards (ReduceShards opt) tmpDir = Inr (fst (run opt tmpDir))
          \<and> mset (concat (map subdirs (fst (run opt tmpDir)))) = mset tmpDir"
      using rs assms by (simp add: run_def Let_def)
  qed
qed

theorem run_output_dirs_mismatch_fatal_witness:
  "int (length (shardOutputDirs \<lparr>ReduceShards = 2, NumShufflers = 1, shardOutputDirs = [''out/0'']\<rparr>))
     \<noteq> ReduceShards \<lparr>ReduceShards = 2, NumShufflers = 1, shardOutputDirs = [''out/0'']\<rparr>
   \<and> (1::int) \<le> ReduceShards \<lparr>ReduceShards = 2, NumShufflers = 1, shardOutputDirs = [''out/0'']\<rparr>
   \<and> snd (run \<lparr>ReduceShards = 2, NumShufflers = 1, shardOutputDirs = [''out/0'']\<rparr>
            [ShardDir ''000'' 7 [], ShardDir ''001'' 3 []]) = Inl AssertFailed
   \<and> mset (concat (map subdirs (fst (run \<lparr>ReduceShards = 2, NumShufflers = 1, shardOutputDirs = [''out/0'']\<rparr>
            [ShardDir ''000'' 7 [], ShardDir ''001'' 3 []]))))
       = mset [ShardDir ''000'' 7 [], ShardDir ''001'' 3 []]"
proof -
  let ?opt = "\<lparr>ReduceShards = 2, NumShufflers = 1, shardOutputDirs = [''out/0'']\<rparr>"
  have h: "int (length (shardOutputDirs ?opt)) \<noteq> ReduceShards ?opt" by simp
  have n: "(1::int) \<le> ReduceShards ?opt" by simp
  from run_output_dirs_mismatch_fatal [OF h, of "[ShardDir ''000'' 7 [], ShardDir ''001'' 3 []]"]
  show ?thesis using h n by blast
qed

section \<open>MergeEngine: shufflePostings and postingHeap\<close>

subsection \<open>Records, keys and streams\<close>

type_synonym byte = "8 word"

text \<open>
  Modelled from the spec: \<open>protos.MapEntry\<close> is generated code outside this file. The
  spec's Record has a \<open>key\<close>, "an ordered byte sequence", and an opaque payload; the only
  field \<open>shuffle.go\<close> reads is \<open>Key\<close>.
\<close>

record MapEntry =
  Key :: "byte list"
  Payload :: "byte list"

text \<open>
  \<open>bytes.Compare\<close> of the Go standard library: -1, 0 or 1 by the unsigned lexicographic
  order of the bytes; a nil slice is the empty slice.
\<close>

fun bytes_Compare :: "byte list \<Rightarrow> byte list \<Rightarrow> int" where
  "bytes_Compare [] [] = 0"
| "bytes_Compare [] (y # ys) = -1"
| "bytes_Compare (x # xs) [] = 1"
| "bytes_Compare (x # xs) (y # ys) =
     (if x < y then -1 else if y < x then 1 else bytes_Compare xs ys)"

text \<open>
  A stream \<open>chan *protos.MapEntry\<close> is the list of the entries still to be received
  from it; \<open>readMapOutput\<close> closes the channel after the last one, so a receive on the
  empty list yields \<open>nil, false\<close>. A \<open>heapNode\<close> holds the entry received last
  (\<open>None\<close> for the nil pointer) and the rest of its channel.
\<close>

record heapNode =
  mapEntry :: "MapEntry option"
  ch :: "MapEntry list"

subsection \<open>postingHeap and container/heap\<close>

text \<open>
  \<open>postingHeap.Less\<close> reads \<open>h.nodes[i].mapEntry.Key\<close> and \<open>h.nodes[j].mapEntry.Key\<close>:
  an index out of range and a nil \<open>mapEntry\<close> panic.
\<close>

definition Less :: "heapNode list \<Rightarrow> nat \<Rightarrow> nat \<Rightarrow> error + bool" where
  "Less nodes i j =
     (if i < length nodes \<and> j < length nodes then
        (case mapEntry (nodes ! i) of
           None \<Rightarrow> Inl NilDeref
         | Some a \<Rightarrow>
            (case mapEntry (nodes ! j) of
               None \<Rightarrow> Inl NilDeref
             | Some b \<Rightarrow> Inr (bytes_Compare (Key a) (Key b) < 0)))
      else Inl IndexOutOfRange)"

definition Swap :: "heapNode list \<Rightarrow> nat \<Rightarrow> nat \<Rightarrow> heapNode list" where
  "Swap nodes i j = nodes[i := nodes ! j, j := nodes ! i]"

text \<open>
  \<open>up\<close> and \<open>down\<close> of \<open>container/heap\<close> (Go standard library), with the heap's
  \<open>Less\<close> and \<open>Swap\<close>. In \<open>up\<close> the parent of \<open>j\<close> is \<open>(j - 1) / 2\<close>, which Go
  truncates to 0 for \<open>j = 0\<close>, as the subtraction on \<open>nat\<close> does. \<open>down\<close> returns whether
  the element moved (\<open>i > i0\<close>); its test \<open>j1 < 0\<close> for integer overflow cannot fire for
  the index of a slice and is left out.
\<close>

function up :: "heapNode list \<Rightarrow> nat \<Rightarrow> error + heapNode list" where
  "up h j =
     (let i = (j - 1) div 2 in
      if i = j then Inr h
      else (case Less h j i of
              Inl e \<Rightarrow> Inl e
            | Inr lt \<Rightarrow> if \<not> lt then Inr h else up (Swap h i j) i))"
  by pat_completeness auto
termination
  by (relation "measure (\<lambda>(h, j). j)") auto

declare up.simps [simp del]

function down :: "heapNode list \<Rightarrow> nat \<Rightarrow> nat \<Rightarrow> nat \<Rightarrow> error + (heapNode list \<times> bool)" where
  "down h i0 i n =
     (let j1 = 2 * i + 1 in
      if j1 \<ge> n then Inr (h, i > i0)
      else (case (if j1 + 1 < n then Less h (j1 + 1) j1 else Inr False) of
              Inl e \<Rightarrow> Inl e
            | Inr r \<Rightarrow>
               (let j = (if r then j1 + 1 else j1) in
                case Less h j i of
                  Inl e \<Rightarrow> Inl e
                | Inr lt \<Rightarrow> if \<not> lt then Inr (h, i > i0) else down (Swap h i j) i0 j n)))"
  by pat_completeness auto
termination
  by (relation "measure (\<lambda>(h, i0, i, n). n - i)") auto

declare down.simps [simp del]

text \<open>
  \<open>heap.Push\<close> appends and sifts up; \<open>heap.Pop\<close> swaps the root with the last element,
  sifts the new root down in the first \<open>n\<close> positions and removes the last element;
  \<open>heap.Fix\<close> sifts down and, if the element did not move, up.
\<close>

definition heap_Push :: "heapNode list \<Rightarrow> heapNode \<Rightarrow> error + heapNode list" where
  "heap_Push h x = up (h @ [x]) (length (h @ [x]) - 1)"

definition heap_Pop :: "heapNode list \<Rightarrow> error + (heapNode \<times> heapNode list)" where
  "heap_Pop h =
     (if h = [] then Inl IndexOutOfRange
      else (let n = length h - 1 in
            case down (Swap h 0 n) 0 0 n of
              Inl e \<Rightarrow> Inl e
            | Inr (h', moved) \<Rightarrow> Inr (last h', butlast h')))"

definition heap_Fix :: "heapNode list \<Rightarrow> nat \<Rightarrow> error + heapNode list" where
  "heap_Fix h i =
     (case down h i i (length h) of
        Inl e \<Rightarrow> Inl e
      | Inr (h', moved) \<Rightarrow> if \<not> moved then up h' i else Inr h')"

subsection \<open>shufflePostings\<close>

text \<open>
  The first loop: one receive from every channel, pushed onto the heap. The receive is
  not checked: a channel closed without an entry gives the node a nil \<open>mapEntry\<close>.
\<close>

definition firstNode :: "MapEntry list \<Rightarrow> heapNode" where
  "firstNode c = (case c of [] \<Rightarrow> \<lparr>mapEntry = None, ch = []\<rparr>
                          | x # xs \<Rightarrow> \<lparr>mapEntry = Some x, ch = xs\<rparr>)"

fun pushAll :: "MapEntry list list \<Rightarrow> heapNode list \<Rightarrow> error + heapNode list" where
  "pushAll [] ph = Inr ph"
| "pushAll (c # cs) ph =
     (case heap_Push ph (firstNode c) of
        Inl e \<Rightarrow> Inl e
      | Inr ph' \<Rightarrow> pushAll cs ph')"

text \<open>
  Lines 164 to 169: receive the next entry of the root's channel into the root and
  \<open>heap.Fix\<close> it, or, when the channel is closed, \<open>heap.Pop\<close> the root.
\<close>

definition advance :: "heapNode list \<Rightarrow> error + heapNode list" where
  "advance ph =
     (case ch (ph ! 0) of
        x # xs \<Rightarrow> heap_Fix (ph[0 := \<lparr>mapEntry = Some x, ch = xs\<rparr>]) 0
      | [] \<Rightarrow> (case heap_Pop (ph[0 := \<lparr>mapEntry = None, ch = []\<rparr>]) of
                 Inl e \<Rightarrow> Inl e
               | Inr (node, ph') \<Rightarrow> Inr ph'))"

definition batchSize :: nat where
  "batchSize = 10000"

text \<open>
  The variables of the loop, and what the call has done so far: \<open>sent\<close> lists the
  batches sent to \<open>s.output\<close>, \<open>addUidCalls\<close> the calls \<open>ci.addUid(key, count)\<close>, both in
  order. \<open>prevKey\<close> starts as nil, the empty key. \<open>plistLen\<close> is a Go \<open>int\<close>; it counts
  entries received, far below \<open>2^63\<close>, and is a natural number here.
\<close>

record mergeState =
  batch :: "MapEntry list"
  prevKey :: "byte list"
  plistLen :: nat
  sent :: "MapEntry list list"
  addUidCalls :: "(byte list \<times> nat) list"

text \<open>Lines 171 to 184: what the loop does with the entry \<open>me\<close> taken from the heap.\<close>

definition emit :: "mergeState \<Rightarrow> MapEntry \<Rightarrow> mergeState" where
  "emit st me =
     (let keyChanged = (bytes_Compare (prevKey st) (Key me) \<noteq> 0);
          st1 = (if keyChanged \<and> plistLen st > 0
                 then st\<lparr>addUidCalls := addUidCalls st @ [(prevKey st, plistLen st)], plistLen := 0\<rparr>
                 else st);
          st2 = (if length (batch st1) \<ge> batchSize \<and> bytes_Compare (prevKey st1) (Key me) \<noteq> 0
                 then st1\<lparr>sent := sent st1 @ [batch st1], batch := []\<rparr>
                 else st1)
      in st2\<lparr>prevKey := Key me, batch := batch st2 @ [me], plistLen := plistLen st2 + 1\<rparr>)"

definition initState :: mergeState where
  "initState = \<lparr>batch = [], prevKey = [], plistLen = 0, sent = [], addUidCalls = []\<rparr>"

text \<open>Lines 186 to 192, after the loop.\<close>

definition flush :: "mergeState \<Rightarrow> mergeState" where
  "flush st =
     (let st1 = (if length (batch st) > 0 then st\<lparr>sent := sent st @ [batch st]\<rparr> else st)
      in if plistLen st1 > 0
         then st1\<lparr>addUidCalls := addUidCalls st1 @ [(prevKey st1, plistLen st1)]\<rparr>
         else st1)"

text \<open>The measure of the main loop: the entries still in the heap and its channels.\<close>

definition weight :: "heapNode list \<Rightarrow> nat" where
  "weight ph = sum_list (map (\<lambda>n. Suc (length (ch n))) ph)"

section \<open>The heap operations keep the heap ordered\<close>

lemma bytes_Compare_less: "bytes_Compare a b < 0 \<longleftrightarrow> a < b"
  by (induction a b rule: bytes_Compare.induct) auto

lemma bytes_Compare_eq: "bytes_Compare a b = 0 \<longleftrightarrow> a = b"
  by (induction a b rule: bytes_Compare.induct) auto

lemma bytes_Compare_le: "bytes_Compare a b \<le> 0 \<longleftrightarrow> a \<le> b"
  by (induction a b rule: bytes_Compare.induct) auto

definition hk :: "heapNode \<Rightarrow> byte list" where
  "hk nd = (case mapEntry nd of Some m \<Rightarrow> Key m | None \<Rightarrow> [])"

definition present :: "heapNode list \<Rightarrow> nat \<Rightarrow> bool" where
  "present h n = (\<forall>k<n. mapEntry (h ! k) \<noteq> None)"

definition heapOrd :: "heapNode list \<Rightarrow> nat \<Rightarrow> bool" where
  "heapOrd h n = (\<forall>j. 0 < j \<and> j < n \<longrightarrow> hk (h ! ((j - 1) div 2)) \<le> hk (h ! j))"

definition downInv :: "heapNode list \<Rightarrow> nat \<Rightarrow> nat \<Rightarrow> bool" where
  "downInv h n i =
     ((\<forall>j. 0 < j \<and> j < n \<and> (j - 1) div 2 \<noteq> i \<longrightarrow> hk (h ! ((j - 1) div 2)) \<le> hk (h ! j))
    \<and> (0 < i \<longrightarrow> (\<forall>j. 0 < j \<and> j < n \<and> (j - 1) div 2 = i \<longrightarrow> hk (h ! ((i - 1) div 2)) \<le> hk (h ! j))))"

lemma Less_present:
  "present h n \<Longrightarrow> n \<le> length h \<Longrightarrow> i < n \<Longrightarrow> j < n \<Longrightarrow> Less h i j = Inr (hk (h ! i) < hk (h ! j))"
  by (auto simp: Less_def present_def hk_def bytes_Compare_less split: option.splits)

lemma nth_Swap:
  "i < length h \<Longrightarrow> j < length h \<Longrightarrow>
     Swap h i j ! k = (if k = j then h ! i else if k = i then h ! j else h ! k)"
  by (auto simp: Swap_def nth_list_update)

lemma length_Swap [simp]: "length (Swap h i j) = length h"
  by (simp add: Swap_def)

lemma mset_Swap: "i < length h \<Longrightarrow> j < length h \<Longrightarrow> mset (Swap h i j) = mset h"
  by (simp add: Swap_def mset_swap)

lemma take_Swap: "i < n \<Longrightarrow> j < n \<Longrightarrow> n \<le> length h \<Longrightarrow> take n (Swap h i j) = Swap (take n h) i j"
  by (simp add: Swap_def take_update_swap)

lemma drop_Swap: "i < n \<Longrightarrow> j < n \<Longrightarrow> drop n (Swap h i j) = drop n h"
  by (simp add: Swap_def)

lemma present_Swap: "present h n \<Longrightarrow> n \<le> length h \<Longrightarrow> i < n \<Longrightarrow> j < n \<Longrightarrow> present (Swap h i j) n"
  by (auto simp: present_def nth_Swap)

lemma parent_child: "0 < j \<Longrightarrow> ((j - 1) div 2 = i) = (j = 2 * i + 1 \<or> j = 2 * i + 2)" for i j :: nat
  by presburger

definition downPost :: "heapNode list \<Rightarrow> nat \<Rightarrow> heapNode list \<Rightarrow> bool" where
  "downPost h n h' = (heapOrd h' n \<and> present h' n \<and> length h' = length h
      \<and> mset (take n h') = mset (take n h) \<and> drop n h' = drop n h)"

lemma downInv_leaf:
  assumes "downInv h n i" "n \<le> 2 * i + 1"
  shows "heapOrd h n"
  unfolding heapOrd_def
proof (intro allI impI)
  fix j assume j: "0 < j \<and> j < n"
  then have "(j - 1) div 2 \<noteq> i" using assms(2) by presburger
  then show "hk (h ! ((j - 1) div 2)) \<le> hk (h ! j)"
    using assms(1) j by (simp add: downInv_def)
qed

lemma downInv_stop:
  assumes inv: "downInv h n i"
    and c1: "hk (h ! i) \<le> hk (h ! (2 * i + 1))"
    and c2: "2 * i + 2 < n \<longrightarrow> hk (h ! i) \<le> hk (h ! (2 * i + 2))"
  shows "heapOrd h n"
  unfolding heapOrd_def
proof (intro allI impI)
  fix j assume j: "0 < j \<and> j < n"
  show "hk (h ! ((j - 1) div 2)) \<le> hk (h ! j)"
  proof (cases "(j - 1) div 2 = i")
    case True
    then have "j = 2 * i + 1 \<or> j = 2 * i + 2" using j parent_child by blast
    then show ?thesis using True c1 c2 j by auto
  next
    case False
    then show ?thesis using inv j by (simp add: downInv_def)
  qed
qed

lemma downInv_Swap:
  assumes inv: "downInv h n i"
    and len: "n \<le> length h"
    and j: "j = 2 * i + 1 \<or> j = 2 * i + 2" "j < n"
    and lt: "hk (h ! j) < hk (h ! i)"
    and c1: "hk (h ! j) \<le> hk (h ! (2 * i + 1))"
    and c2: "2 * i + 2 < n \<longrightarrow> hk (h ! j) \<le> hk (h ! (2 * i + 2))"
  shows "downInv (Swap h i j) n j"
proof -
  have ij: "i < j" "i < length h" "j < length h" using j len by auto
  have pj: "(j - 1) div 2 = i" using j(1) by presburger
  have nth: "\<And>k. Swap h i j ! k = (if k = j then h ! i else if k = i then h ! j else h ! k)"
    using nth_Swap [OF ij(2,3)] by simp
  show ?thesis
    unfolding downInv_def
  proof (intro conjI allI impI)
    fix k assume k: "0 < k \<and> k < n \<and> (k - 1) div 2 \<noteq> j"
    let ?p = "(k - 1) div 2"
    show "hk (Swap h i j ! ?p) \<le> hk (Swap h i j ! k)"
    proof (cases "?p = i")
      case True
      then have kc: "k = 2 * i + 1 \<or> k = 2 * i + 2" using k parent_child by blast
      show ?thesis
      proof (cases "k = j")
        case True
        then show ?thesis using \<open>?p = i\<close> lt ij by (simp add: nth)
      next
        case False
        then have "Swap h i j ! k = h ! k" using kc ij by (auto simp: nth)
        moreover have "Swap h i j ! ?p = h ! j" using True ij by (simp add: nth)
        moreover have "hk (h ! j) \<le> hk (h ! k)" using kc c1 c2 k by auto
        ultimately show ?thesis by simp
      qed
    next
      case False
      have old: "hk (h ! ?p) \<le> hk (h ! k)" using inv k False by (simp add: downInv_def)
      have pne: "?p \<noteq> j" using k by simp
      show ?thesis
      proof (cases "k = i")
        case True
        then have i0: "0 < i" using k by simp
        have "hk (h ! ((i - 1) div 2)) \<le> hk (h ! j)"
          using inv i0 j pj by (auto simp: downInv_def)
        moreover have "(i - 1) div 2 \<noteq> i" "(i - 1) div 2 \<noteq> j" using i0 ij by presburger+
        ultimately show ?thesis using True ij(1) by (simp add: nth)
      next
        case False
        have "k \<noteq> j" using pj \<open>?p \<noteq> i\<close> by auto
        then show ?thesis using old False pne \<open>?p \<noteq> i\<close> by (simp add: nth)
      qed
    qed
  next
    fix k assume "0 < j" and k: "0 < k \<and> k < n \<and> (k - 1) div 2 = j"
    have "(k - 1) div 2 \<noteq> i" using k ij by simp
    then have "hk (h ! j) \<le> hk (h ! k)" using inv k by (auto simp: downInv_def)
    moreover have "k \<noteq> i" "k \<noteq> j" using k ij by presburger+
    ultimately show "hk (Swap h i j ! ((j - 1) div 2)) \<le> hk (Swap h i j ! k)"
      using pj ij by (simp add: nth)
  qed
qed

lemma downPost_Swap:
  assumes "downPost (Swap h i j) n h'" "i < n" "j < n" "n \<le> length h"
  shows "downPost h n h'"
proof -
  have "mset (take n (Swap h i j)) = mset (take n h)"
    using assms by (simp add: take_Swap mset_Swap)
  then show ?thesis
    using assms by (simp add: downPost_def drop_Swap)
qed

lemma down_correct:
  "n \<le> length h \<Longrightarrow> present h n \<Longrightarrow> downInv h n i
     \<Longrightarrow> \<exists>h' b. down h i0 i n = Inr (h', b) \<and> downPost h n h'"
proof (induction h i0 i n rule: down.induct)
  case (1 h i0 i n)
  note len = "1.prems"(1) and pres = "1.prems"(2) and inv = "1.prems"(3)
  let ?j1 = "2 * i + 1"
  show ?case
  proof (cases "n \<le> ?j1")
    case True
    have "heapOrd h n" by (rule downInv_leaf [OF inv True])
    then have "downPost h n h" using pres by (simp add: downPost_def)
    moreover have "down h i0 i n = Inr (h, i0 < i)"
      using True by (subst down.simps) (simp add: Let_def)
    ultimately show ?thesis by blast
  next
    case False
    define r where "r = (?j1 + 1 < n \<and> hk (h ! (?j1 + 1)) < hk (h ! ?j1))"
    define j where "j = (if r then ?j1 + 1 else ?j1)"
    have j1n: "?j1 < n" using False by simp
    have jn: "j < n" using j1n by (auto simp: j_def r_def)
    have jc: "j = 2 * i + 1 \<or> j = 2 * i + 2" by (auto simp: j_def)
    have "i < n" using j1n by simp
    have L1: "(if ?j1 + 1 < n then Less h (?j1 + 1) ?j1 else Inr False) = Inr r"
      using Less_present [OF pres len _ j1n] by (auto simp: r_def)
    have L2: "Less h j i = Inr (hk (h ! j) < hk (h ! i))"
      by (rule Less_present [OF pres len jn \<open>i < n\<close>])
    have m1: "hk (h ! j) \<le> hk (h ! ?j1)" by (auto simp: j_def r_def)
    have m2: "2 * i + 2 < n \<longrightarrow> hk (h ! j) \<le> hk (h ! (2 * i + 2))"
      by (auto simp: j_def r_def)
    show ?thesis
    proof (cases "hk (h ! j) < hk (h ! i)")
      case nlt: False
      have c1: "hk (h ! i) \<le> hk (h ! ?j1)" using nlt m1 by auto
      have c2: "2 * i + 2 < n \<longrightarrow> hk (h ! i) \<le> hk (h ! (2 * i + 2))" using nlt m2 by auto
      have "heapOrd h n" by (rule downInv_stop [OF inv c1 c2])
      then have "downPost h n h" using pres by (simp add: downPost_def)
      moreover have "down h i0 i n = Inr (h, i0 < i)"
        by (subst down.simps)
          (simp only: Let_def False if_False L1 sum.case L2 [unfolded j_def] nlt [unfolded j_def]
            not_False_eq_True if_True)
      ultimately show ?thesis by blast
    next
      case lt: True
      have step: "down h i0 i n = down (Swap h i j) i0 j n"
        unfolding j_def
        by (subst down.simps)
          (simp only: Let_def False if_False L1 sum.case L2 [unfolded j_def] lt [unfolded j_def]
            not_True_eq_False if_False)
      have inv': "downInv (Swap h i j) n j"
        by (rule downInv_Swap [OF inv len jc jn lt m1 m2])
      have pres': "present (Swap h i j) n"
        by (rule present_Swap [OF pres len \<open>i < n\<close> jn])
      have len': "n \<le> length (Swap h i j)" using len by simp
      have "\<exists>h' b. down (Swap h i j) i0 j n = Inr (h', b) \<and> downPost (Swap h i j) n h'"
        using "1.IH" [OF refl False L1 j_def L2 _ len' pres' inv'] lt by simp
      then obtain h' b where res: "down (Swap h i j) i0 j n = Inr (h', b)"
        "downPost (Swap h i j) n h'" by blast
      have "downPost h n h'"
        by (rule downPost_Swap [OF res(2) \<open>i < n\<close> jn len])
      then show ?thesis using step res(1) by simp
    qed
  qed
qed

definition upInv :: "heapNode list \<Rightarrow> nat \<Rightarrow> bool" where
  "upInv h j =
     ((\<forall>k. 0 < k \<and> k < length h \<and> k \<noteq> j \<longrightarrow> hk (h ! ((k - 1) div 2)) \<le> hk (h ! k))
    \<and> (0 < j \<longrightarrow> (\<forall>k. 0 < k \<and> k < length h \<and> (k - 1) div 2 = j
            \<longrightarrow> hk (h ! ((j - 1) div 2)) \<le> hk (h ! k))))"

lemma upInv_stop:
  assumes "upInv h j" "j = 0 \<or> hk (h ! ((j - 1) div 2)) \<le> hk (h ! j)"
  shows "heapOrd h (length h)"
  unfolding heapOrd_def
proof (intro allI impI)
  fix k assume k: "0 < k \<and> k < length h"
  show "hk (h ! ((k - 1) div 2)) \<le> hk (h ! k)"
  proof (cases "k = j")
    case True
    then show ?thesis using assms(2) k by auto
  next
    case False
    then show ?thesis using assms(1) k by (simp add: upInv_def)
  qed
qed

lemma upInv_Swap:
  assumes inv: "upInv h j"
    and j: "0 < j" "j < length h"
    and i: "i = (j - 1) div 2"
    and lt: "hk (h ! j) < hk (h ! i)"
  shows "upInv (Swap h i j) i"
proof -
  have ij: "i < j" "i < length h" using j i by auto
  have pij: "(j - 1) div 2 = i" using i by simp
  have nth: "\<And>k. Swap h i j ! k = (if k = j then h ! i else if k = i then h ! j else h ! k)"
    using nth_Swap [OF ij(2) j(2)] by simp
  have edge: "\<And>k. 0 < k \<Longrightarrow> k < length h \<Longrightarrow> k \<noteq> j \<Longrightarrow> hk (h ! ((k - 1) div 2)) \<le> hk (h ! k)"
    using inv by (simp add: upInv_def)
  have grand: "\<And>k. 0 < k \<Longrightarrow> k < length h \<Longrightarrow> (k - 1) div 2 = j \<Longrightarrow> hk (h ! i) \<le> hk (h ! k)"
    using inv j(1) i by (simp add: upInv_def)
  show ?thesis
    unfolding upInv_def length_Swap
  proof (intro conjI allI impI)
    fix k assume k: "0 < k \<and> k < length h \<and> k \<noteq> i"
    let ?p = "(k - 1) div 2"
    have pk: "?p < k" using k by presburger
    show "hk (Swap h i j ! ?p) \<le> hk (Swap h i j ! k)"
    proof (cases "k = j")
      case True
      have "hk (Swap h i j ! i) \<le> hk (Swap h i j ! j)" using lt ij by (simp add: nth)
      then show ?thesis unfolding True pij .
    next
      case kj: False
      have old: "hk (h ! ?p) \<le> hk (h ! k)" using edge k kj by simp
      show ?thesis
      proof (cases "?p = i")
        case True
        then have "hk (h ! j) \<le> hk (h ! k)" using old lt by auto
        then show ?thesis using True k kj ij by (simp add: nth)
      next
        case pi: False
        show ?thesis
        proof (cases "?p = j")
          case True
          have "hk (h ! i) \<le> hk (h ! k)" using grand k True by simp
          then show ?thesis using True k kj ij by (simp add: nth)
        next
          case False
          then show ?thesis using old pi k kj by (simp add: nth)
        qed
      qed
    qed
  next
    fix k assume i0: "0 < i" and k: "0 < k \<and> k < length h \<and> (k - 1) div 2 = i"
    let ?g = "(i - 1) div 2"
    have g: "?g < i" using i0 by presburger
    have gi: "hk (h ! ?g) \<le> hk (h ! i)" using edge [of i] i0 ij by simp
    have ki: "k \<noteq> i" using k by presburger
    have "hk (h ! ?g) \<le> hk (Swap h i j ! k)"
    proof (cases "k = j")
      case True
      then show ?thesis using gi ij by (simp add: nth)
    next
      case False
      then have "hk (h ! i) \<le> hk (h ! k)" using edge [of k] k by simp
      then show ?thesis using gi False ki by (simp add: nth)
    qed
    moreover have "Swap h i j ! ?g = h ! ?g" using g ij by (simp add: nth)
    ultimately show "hk (Swap h i j ! ?g) \<le> hk (Swap h i j ! k)" by simp
  qed
qed

definition upPost :: "heapNode list \<Rightarrow> heapNode list \<Rightarrow> bool" where
  "upPost h h' = (heapOrd h' (length h') \<and> present h' (length h') \<and> length h' = length h
      \<and> mset h' = mset h)"

lemma up_correct:
  "present h (length h) \<Longrightarrow> j < length h \<Longrightarrow> upInv h j
     \<Longrightarrow> \<exists>h'. up h j = Inr h' \<and> upPost h h'"
proof (induction h j rule: up.induct)
  case (1 h j)
  note pres = "1.prems"(1) and jl = "1.prems"(2) and inv = "1.prems"(3)
  let ?i = "(j - 1) div 2"
  show ?case
  proof (cases "?i = j")
    case True
    then have "j = 0" by presburger
    then have "heapOrd h (length h)" using upInv_stop [OF inv] by simp
    then have "upPost h h" using pres by (simp add: upPost_def)
    moreover have "up h j = Inr h"
      by (subst up.simps) (simp only: Let_def True refl if_True)
    ultimately show ?thesis by blast
  next
    case False
    then have j0: "0 < j" by (cases j) auto
    have il: "?i < length h" using jl by simp
    have L: "Less h j ?i = Inr (hk (h ! j) < hk (h ! ?i))"
      by (rule Less_present [OF pres order_refl jl il])
    show ?thesis
    proof (cases "hk (h ! j) < hk (h ! ?i)")
      case nlt: False
      then have "hk (h ! ?i) \<le> hk (h ! j)" by simp
      then have "heapOrd h (length h)" by (intro upInv_stop [OF inv] disjI2)
      then have "upPost h h" using pres by (simp add: upPost_def)
      moreover have "up h j = Inr h"
        by (subst up.simps) (simp only: Let_def False if_False L sum.case nlt not_False_eq_True if_True)
      ultimately show ?thesis by blast
    next
      case lt: True
      have step: "up h j = up (Swap h ?i j) ?i"
        by (subst up.simps) (simp only: Let_def False if_False L sum.case lt not_True_eq_False)
      have inv': "upInv (Swap h ?i j) ?i"
        by (rule upInv_Swap [OF inv j0 jl refl lt])
      have pres': "present (Swap h ?i j) (length (Swap h ?i j))"
        using present_Swap [OF pres order_refl il jl] by simp
      have il': "?i < length (Swap h ?i j)" using il by simp
      have "\<exists>h'. up (Swap h ?i j) ?i = Inr h' \<and> upPost (Swap h ?i j) h'"
        using "1.IH" [OF refl False L _ pres' il' inv'] lt by simp
      then obtain h' where res: "up (Swap h ?i j) ?i = Inr h'" "upPost (Swap h ?i j) h'"
        by blast
      have "upPost h h'"
        using res(2) mset_Swap [OF il jl] by (auto simp: upPost_def)
      then show ?thesis using step res(1) by simp
    qed
  qed
qed

lemma Less_Inr_bounds: "Less h i j = Inr b \<Longrightarrow> i < length h \<and> j < length h"
  by (auto simp: Less_def split: if_splits)

lemma down_mset:
  "down h i0 i n = Inr (h', b) \<Longrightarrow> n \<le> length h
     \<Longrightarrow> mset h' = mset h \<and> length h' = length h \<and> drop n h' = drop n h"
proof (induction h i0 i n arbitrary: h' b rule: down.induct)
  case (1 h i0 i n)
  let ?j1 = "2 * i + 1"
  show ?case
  proof (cases "n \<le> ?j1")
    case True
    then have "down h i0 i n = Inr (h, i0 < i)" by (subst down.simps) (simp add: Let_def)
    then show ?thesis using "1.prems" by simp
  next
    case False
    obtain r where L1: "(if ?j1 + 1 < n then Less h (?j1 + 1) ?j1 else Inr False) = Inr r"
      using "1.prems"(1) False
      by (subst (asm) down.simps) (auto simp: Let_def split: sum.splits if_splits)
    define j where "j = (if r then ?j1 + 1 else ?j1)"
    have jn: "j < n" using False L1 by (auto simp: j_def split: if_splits)
    obtain lt where L2: "Less h j i = Inr lt"
      using "1.prems"(1) False L1
      by (subst (asm) down.simps) (auto simp: Let_def j_def split: sum.splits if_splits)
    show ?thesis
    proof (cases lt)
      case False
      have "down h i0 i n = Inr (h, i0 < i)"
        by (subst down.simps)
          (simp only: Let_def \<open>\<not> n \<le> ?j1\<close> if_False L1 sum.case L2 [unfolded j_def] False
            not_False_eq_True if_True)
      then show ?thesis using "1.prems" by simp
    next
      case True
      have step: "down h i0 i n = down (Swap h i j) i0 j n"
        unfolding j_def
        by (subst down.simps)
          (simp only: Let_def \<open>\<not> n \<le> ?j1\<close> if_False L1 sum.case L2 [unfolded j_def] True
            not_True_eq_False if_False)
      have res: "down (Swap h i j) i0 j n = Inr (h', b)" using step "1.prems"(1) by simp
      have len': "n \<le> length (Swap h i j)" using "1.prems"(2) by simp
      have "mset h' = mset (Swap h i j) \<and> length h' = length (Swap h i j)
          \<and> drop n h' = drop n (Swap h i j)"
        using "1.IH" [OF refl \<open>\<not> n \<le> ?j1\<close> L1 j_def L2 _ res len'] True by simp
      moreover have "i < n" using False by simp
      moreover have "i < length h" "j < length h" using Less_Inr_bounds [OF L2] by auto
      ultimately show ?thesis using jn by (simp add: mset_Swap drop_Swap)
    qed
  qed
qed

lemma up_mset: "up h j = Inr h' \<Longrightarrow> mset h' = mset h"
proof (induction h j arbitrary: h' rule: up.induct)
  case (1 h j)
  let ?i = "(j - 1) div 2"
  show ?case
  proof (cases "?i = j")
    case True
    have "up h j = Inr h" by (subst up.simps) (simp only: Let_def True refl if_True)
    then show ?thesis using "1.prems" by simp
  next
    case False
    obtain lt where L: "Less h j ?i = Inr lt"
      using "1.prems" False by (subst (asm) up.simps) (auto simp: Let_def split: sum.splits)
    show ?thesis
    proof (cases lt)
      case nlt: False
      have "up h j = Inr h"
        by (subst up.simps) (simp only: Let_def False if_False L sum.case nlt not_False_eq_True if_True)
      then show ?thesis using "1.prems" by simp
    next
      case True
      have step: "up h j = up (Swap h ?i j) ?i"
        by (subst up.simps) (simp only: Let_def False if_False L sum.case True not_True_eq_False)
      have "mset h' = mset (Swap h ?i j)"
        using "1.IH" [OF refl False L] True step "1.prems" by simp
      then show ?thesis using Less_Inr_bounds [OF L] by (simp add: mset_Swap)
    qed
  qed
qed

lemma heap_Fix_mset: "heap_Fix h i = Inr h' \<Longrightarrow> mset h' = mset h"
  by (auto simp: heap_Fix_def split: sum.splits prod.splits if_splits
      dest!: down_mset up_mset)

lemma heap_Pop_mset:
  assumes "heap_Pop h = Inr (x, h')"
  shows "add_mset x (mset h') = mset h"
proof -
  have ne: "h \<noteq> []" using assms by (auto simp: heap_Pop_def split: if_splits)
  let ?n = "length h - 1"
  obtain h2 b where d: "down (Swap h 0 ?n) 0 0 ?n = Inr (h2, b)" and x: "x = last h2" "h' = butlast h2"
    using assms ne by (auto simp: heap_Pop_def Let_def split: sum.splits prod.splits)
  have "mset h2 = mset (Swap h 0 ?n) \<and> length h2 = length (Swap h 0 ?n)"
    using down_mset [OF d] by simp
  then have m: "mset h2 = mset h" and l: "length h2 = length h"
    using ne by (simp_all add: mset_Swap)
  have "h2 \<noteq> []" using l ne by auto
  then have "h2 = butlast h2 @ [last h2]" by simp
  then have "mset h2 = add_mset (last h2) (mset (butlast h2))"
    by (metis mset.simps(2) mset_append union_mset_add_mset_right add.right_neutral mset.simps(1))
  then show ?thesis using m x by simp
qed

lemma weight_mset: "mset a = mset b \<Longrightarrow> weight a = weight b"
  unfolding weight_def by (metis mset_map sum_mset_sum_list)

lemma weight_add: "add_mset x (mset a) = mset b \<Longrightarrow> weight b = Suc (length (ch x)) + weight a"
proof -
  assume "add_mset x (mset a) = mset b"
  then have "mset (x # a) = mset b" by simp
  then have "weight (x # a) = weight b" by (rule weight_mset)
  then show ?thesis by (simp add: weight_def)
qed

lemma weight_update0:
  "ph \<noteq> [] \<Longrightarrow> weight (ph[0 := x]) + length (ch (ph ! 0)) = weight ph + length (ch x)"
  by (cases ph) (simp_all add: weight_def)

lemma advance_weight:
  assumes "ph \<noteq> []" "advance ph = Inr ph'"
  shows "weight ph' < weight ph"
proof (cases "ch (ph ! 0)")
  case Nil
  let ?ph1 = "ph[0 := \<lparr>mapEntry = None, ch = []\<rparr>]"
  obtain nd where "heap_Pop ?ph1 = Inr (nd, ph')"
    using assms(2) Nil by (auto simp: advance_def split: sum.splits)
  then have "weight ?ph1 = Suc (length (ch nd)) + weight ph'"
    using weight_add heap_Pop_mset by blast
  moreover have "weight ?ph1 = weight ph"
    using weight_update0 [OF assms(1), of "\<lparr>mapEntry = None, ch = []\<rparr>"] Nil by simp
  ultimately show ?thesis by simp
next
  case (Cons x xs)
  let ?ph1 = "ph[0 := \<lparr>mapEntry = Some x, ch = xs\<rparr>]"
  have "heap_Fix ?ph1 0 = Inr ph'" using assms(2) Cons by (simp add: advance_def)
  then have "weight ph' = weight ?ph1" using heap_Fix_mset weight_mset by blast
  moreover have "weight ?ph1 < weight ph"
    using weight_update0 [OF assms(1), of "\<lparr>mapEntry = Some x, ch = xs\<rparr>"] Cons by simp
  ultimately show ?thesis by simp
qed

text \<open>
  The main loop (lines 161 to 185). \<open>me\<close> is read from the root before the receive,
  the heap is advanced, and only then \<open>me.Key\<close> is read: a nil \<open>me\<close> panics there.
  The result is the state when the loop ends, with the panic that ended it, if any.
\<close>

function mergeLoop :: "heapNode list \<Rightarrow> mergeState \<Rightarrow> mergeState \<times> error option" where
  "mergeLoop ph st =
     (if ph = [] then (st, None)
      else (case advance ph of
              Inl e \<Rightarrow> (st, Some e)
            | Inr ph' \<Rightarrow>
               (case mapEntry (ph ! 0) of
                  None \<Rightarrow> (st, Some NilDeref)
                | Some me \<Rightarrow> mergeLoop ph' (emit st me))))"
  by pat_completeness auto
termination
  by (relation "measure (\<lambda>(ph, st). weight ph)") (auto simp: advance_weight)

declare mergeLoop.simps [simp del]

definition nodeOk :: "heapNode \<Rightarrow> bool" where
  "nodeOk nd = (case mapEntry nd of None \<Rightarrow> False | Some m \<Rightarrow> sorted (map Key (m # ch nd)))"

definition nodeEntries :: "heapNode \<Rightarrow> MapEntry multiset" where
  "nodeEntries nd = (case mapEntry nd of None \<Rightarrow> {#} | Some m \<Rightarrow> mset (m # ch nd))"

definition heapEntries :: "heapNode list \<Rightarrow> MapEntry multiset" where
  "heapEntries ph = sum_list (map nodeEntries ph)"

definition heapInv :: "heapNode list \<Rightarrow> bool" where
  "heapInv ph = (heapOrd ph (length ph) \<and> (\<forall>nd \<in> set ph. nodeOk nd))"

lemma heapEntries_mset: "mset a = mset b \<Longrightarrow> heapEntries a = heapEntries b"
  unfolding heapEntries_def by (metis mset_map sum_mset_sum_list)

lemma nodeOk_present: "\<forall>nd \<in> set h. nodeOk nd \<Longrightarrow> n \<le> length h \<Longrightarrow> present h n"
  by (auto simp: present_def nodeOk_def split: option.splits)

lemma heapOrd_root_least:
  assumes "heapOrd h n" "k < n"
  shows "hk (h ! 0) \<le> hk (h ! k)"
  using assms(2)
proof (induction k rule: less_induct)
  case (less k)
  show ?case
  proof (cases "k = 0")
    case True
    then show ?thesis by simp
  next
    case False
    let ?p = "(k - 1) div 2"
    have p: "?p < k" using False by presburger
    have "hk (h ! ?p) \<le> hk (h ! k)" using assms(1) less.prems False by (simp add: heapOrd_def)
    moreover have "hk (h ! 0) \<le> hk (h ! ?p)" using less.IH [OF p] p less.prems by simp
    ultimately show ?thesis by (rule order_trans [rotated])
  qed
qed

lemma upPostD:
  assumes "upPost h h'"
  shows "heapOrd h' (length h')" "length h' = length h" "mset h' = mset h"
  using assms by (auto simp: upPost_def)

lemma downPostD:
  assumes "downPost h n h'"
  shows "heapOrd h' n" "length h' = length h" "mset (take n h') = mset (take n h)"
    "drop n h' = drop n h"
  using assms by (auto simp: downPost_def)

lemma heap_Push_correct:
  assumes "heapInv ph" "nodeOk x"
  shows "\<exists>ph'. heap_Push ph x = Inr ph' \<and> heapInv ph' \<and> mset ph' = add_mset x (mset ph)"
proof -
  let ?h = "ph @ [x]"
  have ok: "\<forall>nd \<in> set ?h. nodeOk nd" using assms by (auto simp: heapInv_def)
  have pres: "present ?h (length ?h)" by (rule nodeOk_present [OF ok order_refl])
  have inv: "upInv ?h (length ph)"
    unfolding upInv_def
  proof (intro conjI allI impI)
    fix k assume k: "0 < k \<and> k < length ?h \<and> k \<noteq> length ph"
    then have kl: "k < length ph" by simp
    then have "(k - 1) div 2 < length ph" by simp
    then show "hk (?h ! ((k - 1) div 2)) \<le> hk (?h ! k)"
      using assms(1) k kl by (simp add: heapInv_def heapOrd_def nth_append)
  next
    fix k assume "0 < length ph" and k: "0 < k \<and> k < length ?h \<and> (k - 1) div 2 = length ph"
    then have False by simp presburger
    then show "hk (?h ! ((length ph - 1) div 2)) \<le> hk (?h ! k)" ..
  qed
  have "\<exists>h'. up ?h (length ph) = Inr h' \<and> upPost ?h h'"
    by (rule up_correct [OF pres _ inv]) simp
  then obtain h' where h': "up ?h (length ph) = Inr h'" "upPost ?h h'" by blast
  have "set h' = set ?h" using upPostD(3) [OF h'(2)] by (rule mset_eq_setD)
  then have "heapInv h'" using upPostD(1) [OF h'(2)] ok by (simp add: heapInv_def)
  moreover have "mset h' = add_mset x (mset ph)" using upPostD(3) [OF h'(2)] by simp
  moreover have "heap_Push ph x = Inr h'" using h'(1) by (simp add: heap_Push_def)
  ultimately show ?thesis by blast
qed

lemma downInv_root:
  assumes "heapOrd ph n" "n \<le> length ph" "\<forall>k. 0 < k \<and> k < n \<longrightarrow> h ! k = ph ! k"
  shows "downInv h n 0"
  unfolding downInv_def
proof (intro conjI allI impI)
  fix j assume j: "0 < j \<and> j < n \<and> (j - 1) div 2 \<noteq> 0"
  then have "0 < (j - 1) div 2 \<and> (j - 1) div 2 < n" by auto
  then have "h ! ((j - 1) div 2) = ph ! ((j - 1) div 2)" "h ! j = ph ! j"
    using assms(3) j by auto
  then show "hk (h ! ((j - 1) div 2)) \<le> hk (h ! j)"
    using assms(1) j by (simp add: heapOrd_def)
next
  fix j assume "(0::nat) < 0"
  then show "hk (h ! ((0 - 1) div 2)) \<le> hk (h ! j)" by simp
qed

lemma heap_Fix_root_correct:
  assumes inv: "heapInv ph" and ne: "ph \<noteq> []" and x: "nodeOk x"
  shows "\<exists>ph'. heap_Fix (ph[0 := x]) 0 = Inr ph' \<and> heapInv ph' \<and> mset ph' = mset (ph[0 := x])"
proof -
  let ?h = "ph[0 := x]"
  let ?n = "length ?h"
  have ok: "\<forall>nd \<in> set ?h. nodeOk nd"
    using inv x by (auto simp: heapInv_def dest: set_update_subset_insert [THEN subsetD])
  have pres: "present ?h ?n" by (rule nodeOk_present [OF ok order_refl])
  have dinv: "downInv ?h ?n 0"
    by (rule downInv_root [of ph]) (use inv in \<open>auto simp: heapInv_def\<close>)
  from down_correct [OF order_refl pres dinv, of 0]
  obtain h' b where d: "down ?h 0 0 ?n = Inr (h', b)" "downPost ?h ?n h'" by blast
  have l: "length h' = ?n" using downPostD(2) [OF d(2)] by simp
  have m: "mset h' = mset ?h" using downPostD(3) [OF d(2)] l by simp
  then have "set h' = set ?h" by (rule mset_eq_setD)
  moreover have "heapOrd h' (length h')" using downPostD(1) [OF d(2)] l by simp
  ultimately have "heapInv h'" using ok by (simp add: heapInv_def)
  have "up h' 0 = Inr h'" by (subst up.simps) simp
  then have "heap_Fix ?h 0 = Inr h'" using d(1) by (simp add: heap_Fix_def)
  then show ?thesis using m \<open>heapInv h'\<close> by blast
qed

lemma heap_Pop_root_correct:
  assumes inv: "heapInv ph" and ne: "ph \<noteq> []"
  shows "\<exists>ph'. heap_Pop (ph[0 := x]) = Inr (x, ph') \<and> heapInv ph'
           \<and> add_mset (ph ! 0) (mset ph') = mset ph"
proof -
  define n where "n = length ph - 1"
  define h where "h = ph[0 := x]"
  define s where "s = Swap h 0 n"
  have n: "n < length ph" "length ph = Suc n" using ne by (simp_all add: n_def)
  have lh: "length h = Suc n" using n by (simp add: h_def)
  have ok: "\<forall>nd \<in> set ph. nodeOk nd" using inv by (simp add: heapInv_def)
  have s_nth: "\<And>k. s ! k = (if k = n then x else if k = 0 then ph ! n else ph ! k)"
    using lh n by (simp add: s_def nth_Swap h_def nth_list_update)
  have ls: "length s = Suc n" using lh by (simp add: s_def)
  have pres: "present s n"
    unfolding present_def
  proof (intro allI impI)
    fix k assume "k < n"
    then have "s ! k \<in> set ph" using n by (auto simp: s_nth)
    then show "mapEntry (s ! k) \<noteq> None" using ok by (auto simp: nodeOk_def split: option.splits)
  qed
  have ho: "heapOrd ph n" using inv n by (auto simp: heapInv_def heapOrd_def)
  have dinv: "downInv s n 0"
    by (rule downInv_root [of ph]) (use ho n in \<open>auto simp: s_nth\<close>)
  have len: "n \<le> length s" using ls by simp
  from down_correct [OF len pres dinv, of 0]
  obtain h' b where d: "down s 0 0 n = Inr (h', b)" "downPost s n h'" by blast
  have l': "length h' = Suc n" using downPostD(2) [OF d(2)] ls by simp
  have drs: "drop n s = [x]"
    using ls by (auto simp: list_eq_iff_nth_eq s_nth)
  have dr: "drop n h' = [x]" using downPostD(4) [OF d(2)] drs by simp
  have h'ne: "h' \<noteq> []" using l' by auto
  have "h' = take n h' @ drop n h'" by simp
  then have h'eq: "h' = take n h' @ [x]" using dr by simp
  have lst: "last h' = x" by (subst h'eq) simp
  have bl: "butlast h' = take n h'" by (subst h'eq) simp
  have mt: "mset (take n h') = mset (take n s)" by (rule downPostD(3) [OF d(2)])
  have "s = take n s @ drop n s" by simp
  then have "mset s = mset (take n s) + {#x#}"
    using drs by (metis mset.simps(1,2) mset_append)
  moreover have "mset s = mset h" using lh by (simp add: s_def mset_Swap)
  moreover have "mset h = add_mset x (mset ph - {#ph ! 0#})"
    using ne by (simp add: h_def mset_update)
  ultimately have "mset (take n s) = mset ph - {#ph ! 0#}" by simp
  then have mres: "mset (butlast h') = mset ph - {#ph ! 0#}" using bl mt by simp
  have "ph ! 0 \<in># mset ph" using ne by simp
  then have c3: "add_mset (ph ! 0) (mset (butlast h')) = mset ph" using mres by simp
  have "set (butlast h') \<subseteq> set ph"
    using mres by (metis in_diffD mset_eq_setD set_mset_mset subsetI)
  then have okr: "\<forall>nd \<in> set (butlast h'). nodeOk nd" using ok by auto
  have "heapOrd h' n" by (rule downPostD(1) [OF d(2)])
  moreover have "\<And>j. 0 < j \<Longrightarrow> j < n \<Longrightarrow> (j - 1) div 2 < n" by simp
  ultimately have "heapOrd (butlast h') (length (butlast h'))"
    using l' by (auto simp: heapOrd_def bl)
  then have c2: "heapInv (butlast h')" using okr by (simp add: heapInv_def)
  have "length (ph[0 := x]) - 1 = n" by (simp add: n_def)
  then have c1: "heap_Pop (ph[0 := x]) = Inr (x, butlast h')"
    using d(1) ne lst by (simp add: heap_Pop_def Let_def s_def h_def)
  show ?thesis using c1 c2 c3 by blast
qed

lemma heapEntries_Cons: "heapEntries (x # a) = nodeEntries x + heapEntries a"
  by (simp add: heapEntries_def)

lemma heapEntries_add: "add_mset x (mset a) = mset b \<Longrightarrow> heapEntries b = nodeEntries x + heapEntries a"
proof -
  assume "add_mset x (mset a) = mset b"
  then have "mset (x # a) = mset b" by simp
  then have "heapEntries (x # a) = heapEntries b" by (rule heapEntries_mset)
  then show ?thesis by (simp add: heapEntries_Cons)
qed

lemma heapEntries_least:
  assumes inv: "heapInv ph" and root: "mapEntry (ph ! 0) = Some m" and e: "e \<in># heapEntries ph"
  shows "Key m \<le> Key e"
proof -
  from e obtain nd where nd: "nd \<in> set ph" "e \<in># nodeEntries nd"
    by (auto simp: heapEntries_def)
  then obtain k where k: "k < length ph" "ph ! k = nd" by (metis in_set_conv_nth)
  have "nodeOk nd" using inv nd(1) by (simp add: heapInv_def)
  then obtain mk where mk: "mapEntry nd = Some mk" "sorted (map Key (mk # ch nd))"
    by (auto simp: nodeOk_def split: option.splits)
  have "e \<in> set (mk # ch nd)" using nd(2) mk(1) by (simp add: nodeEntries_def)
  then have "Key mk \<le> Key e" using mk(2) by auto
  moreover have "hk (ph ! 0) \<le> hk (ph ! k)"
    using heapOrd_root_least [of ph "length ph" k] inv k(1) by (simp add: heapInv_def)
  ultimately show ?thesis using root mk(1) k(2) by (simp add: hk_def)
qed

lemma advance_correct:
  assumes inv: "heapInv ph" and ne: "ph \<noteq> []"
  shows "\<exists>m ph'. mapEntry (ph ! 0) = Some m \<and> advance ph = Inr ph' \<and> heapInv ph'
           \<and> heapEntries ph = add_mset m (heapEntries ph')"
proof -
  obtain r t where ph: "ph = r # t" using ne by (cases ph) auto
  have "nodeOk r" using inv ph by (simp add: heapInv_def)
  then obtain m where m: "mapEntry r = Some m" "sorted (map Key (m # ch r))"
    by (auto simp: nodeOk_def split: option.splits)
  have r0: "ph ! 0 = r" using ph by simp
  show ?thesis
  proof (cases "ch r")
    case Nil
    let ?x = "\<lparr>mapEntry = None, ch = []\<rparr>"
    from heap_Pop_root_correct [OF inv ne, of ?x]
    obtain ph' where p: "heap_Pop (ph[0 := ?x]) = Inr (?x, ph')" "heapInv ph'"
      "add_mset (ph ! 0) (mset ph') = mset ph" by blast
    have "advance ph = Inr ph'" using p(1) Nil r0 by (simp add: advance_def)
    moreover have "heapEntries ph = nodeEntries r + heapEntries ph'"
      using heapEntries_add [OF p(3)] r0 by simp
    then have "heapEntries ph = add_mset m (heapEntries ph')"
      using m(1) Nil by (simp add: nodeEntries_def)
    ultimately show ?thesis using m(1) r0 p(2) by auto
  next
    case (Cons x xs)
    let ?x = "\<lparr>mapEntry = Some x, ch = xs\<rparr>"
    have okx: "nodeOk ?x" using m(2) Cons by (simp add: nodeOk_def)
    from heap_Fix_root_correct [OF inv ne okx]
    obtain ph' where p: "heap_Fix (ph[0 := ?x]) 0 = Inr ph'" "heapInv ph'"
      "mset ph' = mset (ph[0 := ?x])" by blast
    have "advance ph = Inr ph'" using p(1) Cons r0 by (simp add: advance_def)
    moreover have "heapEntries ph' = heapEntries (?x # t)"
      using heapEntries_mset [OF p(3)] ph by simp
    then have "heapEntries ph = add_mset m (heapEntries ph')"
      using m(1) Cons ph by (simp add: heapEntries_Cons nodeEntries_def)
    ultimately show ?thesis using m(1) r0 p(2) by auto
  qed
qed

lemma mergeLoop_correct:
  "heapInv ph \<Longrightarrow> \<exists>ms. mergeLoop ph st = (foldl emit st ms, None)
      \<and> mset ms = heapEntries ph \<and> sorted (map Key ms)"
proof (induction ph st rule: mergeLoop.induct)
  case (1 ph st)
  show ?case
  proof (cases "ph = []")
    case True
    have "mergeLoop ph st = (foldl emit st [], None)"
      using True by (subst mergeLoop.simps) simp
    moreover have "mset [] = heapEntries ph" using True by (simp add: heapEntries_def)
    moreover have "sorted (map Key [])" by simp
    ultimately show ?thesis by blast
  next
    case False
    from advance_correct [OF "1.prems" False]
    obtain m ph' where a: "mapEntry (ph ! 0) = Some m" "advance ph = Inr ph'" "heapInv ph'"
      "heapEntries ph = add_mset m (heapEntries ph')" by blast
    from "1.IH" [OF False a(2) a(1) a(3)]
    obtain ms where ms: "mergeLoop ph' (emit st m) = (foldl emit (emit st m) ms, None)"
      "mset ms = heapEntries ph'" "sorted (map Key ms)" by blast
    have step: "mergeLoop ph st = mergeLoop ph' (emit st m)"
      using False a(1,2) by (subst mergeLoop.simps) simp
    have c1: "mergeLoop ph st = (foldl emit st (m # ms), None)"
      using step ms(1) by simp
    have c2: "mset (m # ms) = heapEntries ph" using a(4) ms(2) by simp
    have "\<forall>e \<in> set ms. Key m \<le> Key e"
    proof
      fix e assume "e \<in> set ms"
      then have "e \<in># heapEntries ph" using ms(2) a(4) by (metis set_mset_mset insert_iff set_mset_add_mset_insert)
      then show "Key m \<le> Key e" by (rule heapEntries_least [OF "1.prems" a(1)])
    qed
    then have c3: "sorted (map Key (m # ms))" using ms(3) by simp
    show ?thesis using c1 c2 c3 by blast
  qed
qed

lemma pushAll_correct:
  "heapInv ph \<Longrightarrow> \<forall>c \<in> set cs. c \<noteq> [] \<and> sorted (map Key c)
     \<Longrightarrow> \<exists>ph'. pushAll cs ph = Inr ph' \<and> heapInv ph'
           \<and> heapEntries ph' = heapEntries ph + mset (concat cs)"
proof (induction cs arbitrary: ph)
  case Nil
  then show ?case by simp
next
  case (Cons c cs)
  obtain x xs where c: "c = x # xs" using Cons.prems(2) by (cases c) auto
  let ?nd = "\<lparr>mapEntry = Some x, ch = xs\<rparr>"
  have ok: "nodeOk ?nd" using Cons.prems(2) c by (simp add: nodeOk_def)
  from heap_Push_correct [OF Cons.prems(1) ok]
  obtain ph1 where p: "heap_Push ph ?nd = Inr ph1" "heapInv ph1"
    "mset ph1 = add_mset ?nd (mset ph)" by blast
  have rest: "\<forall>c \<in> set cs. c \<noteq> [] \<and> sorted (map Key c)" using Cons.prems(2) by simp
  from Cons.IH [OF p(2) rest]
  obtain ph' where r: "pushAll cs ph1 = Inr ph'" "heapInv ph'"
    "heapEntries ph' = heapEntries ph1 + mset (concat cs)" by blast
  have "heapEntries ph1 = nodeEntries ?nd + heapEntries ph"
    using heapEntries_add [of ?nd ph ph1] p(3) by simp
  then have "heapEntries ph' = heapEntries ph + mset (concat (c # cs))"
    using r(3) c by (simp add: nodeEntries_def)
  moreover have "pushAll (c # cs) ph = Inr ph'" using p(1) r(1) c by (simp add: firstNode_def)
  ultimately show ?case using r(2) by blast
qed

text \<open>
  \<open>shufflePostings\<close>: the state at the end of the call and the panic that ended it
  (\<open>None\<close> when the call returned). What was sent before a panic stays sent.
\<close>

definition shufflePostings :: "MapEntry list list \<Rightarrow> mergeState \<times> error option" where
  "shufflePostings mapEntryChs =
     (case pushAll mapEntryChs [] of
        Inl e \<Rightarrow> (initState, Some e)
      | Inr ph \<Rightarrow>
          (case mergeLoop ph initState of
             (st, Some e) \<Rightarrow> (st, Some e)
           | (st, None) \<Rightarrow> (flush st, None)))"

section \<open>Batches and key groups\<close>

lemma batchSize_pos: "0 < batchSize"
  by (simp add: batchSize_def)

lemma emit_batch:
  "batch (emit s m) = (if batchSize \<le> length (batch s) \<and> prevKey s \<noteq> Key m then [m] else batch s @ [m])"
  by (auto simp: emit_def Let_def bytes_Compare_eq)

lemma emit_sent:
  "sent (emit s m) = (if batchSize \<le> length (batch s) \<and> prevKey s \<noteq> Key m then sent s @ [batch s] else sent s)"
  by (auto simp: emit_def Let_def bytes_Compare_eq)

lemma emit_prevKey: "prevKey (emit s m) = Key m"
  by (simp add: emit_def Let_def)

lemma emit_plistLen:
  "plistLen (emit s m) = (if prevKey s \<noteq> Key m \<and> 0 < plistLen s then 1 else plistLen s + 1)"
  by (auto simp: emit_def Let_def bytes_Compare_eq)

lemma emit_addUidCalls:
  "addUidCalls (emit s m) = (if prevKey s \<noteq> Key m \<and> 0 < plistLen s
      then addUidCalls s @ [(prevKey s, plistLen s)] else addUidCalls s)"
  by (auto simp: emit_def Let_def bytes_Compare_eq)

definition sepd :: "MapEntry list list \<Rightarrow> bool" where
  "sepd bs = (\<forall>i j. i < j \<and> j < length bs \<longrightarrow> (\<forall>x \<in> set (bs ! i). \<forall>y \<in> set (bs ! j). Key x < Key y))"

definition aligned :: "MapEntry list list \<Rightarrow> bool" where
  "aligned bs = (\<forall>i. Suc i < length bs \<longrightarrow> Key (last (bs ! i)) \<noteq> Key (hd (bs ! Suc i)))"

lemma sepd_snoc:
  "sepd (bs @ [b]) = (sepd bs \<and> (\<forall>c \<in> set bs. \<forall>x \<in> set c. \<forall>y \<in> set b. Key x < Key y))"
proof
  assume s: "sepd (bs @ [b])"
  have "sepd bs"
    unfolding sepd_def
  proof (intro allI impI)
    fix i j assume ij: "i < j \<and> j < length bs"
    then have "(bs @ [b]) ! i = bs ! i" "(bs @ [b]) ! j = bs ! j" by (simp_all add: nth_append)
    moreover have "i < j \<and> j < length (bs @ [b])" using ij by simp
    ultimately show "\<forall>x \<in> set (bs ! i). \<forall>y \<in> set (bs ! j). Key x < Key y"
      using s unfolding sepd_def by metis
  qed
  moreover have "\<forall>c \<in> set bs. \<forall>x \<in> set c. \<forall>y \<in> set b. Key x < Key y"
  proof
    fix c assume "c \<in> set bs"
    then obtain i where i: "i < length bs" "bs ! i = c" by (metis in_set_conv_nth)
    have "(bs @ [b]) ! i = c" "(bs @ [b]) ! length bs = b" using i by (simp_all add: nth_append)
    moreover have "i < length bs \<and> length bs < length (bs @ [b])" using i by simp
    ultimately show "\<forall>x \<in> set c. \<forall>y \<in> set b. Key x < Key y"
      using s unfolding sepd_def by metis
  qed
  ultimately show "sepd bs \<and> (\<forall>c \<in> set bs. \<forall>x \<in> set c. \<forall>y \<in> set b. Key x < Key y)" ..
next
  assume a: "sepd bs \<and> (\<forall>c \<in> set bs. \<forall>x \<in> set c. \<forall>y \<in> set b. Key x < Key y)"
  show "sepd (bs @ [b])"
    unfolding sepd_def
  proof (intro allI impI)
    fix i j assume ij: "i < j \<and> j < length (bs @ [b])"
    show "\<forall>x \<in> set ((bs @ [b]) ! i). \<forall>y \<in> set ((bs @ [b]) ! j). Key x < Key y"
    proof (cases "j < length bs")
      case True
      then have "(bs @ [b]) ! i = bs ! i" "(bs @ [b]) ! j = bs ! j" using ij by (simp_all add: nth_append)
      then show ?thesis using a ij True unfolding sepd_def by simp
    next
      case False
      then have j: "j = length bs" using ij by simp
      then have "(bs @ [b]) ! i = bs ! i" "(bs @ [b]) ! j = b" "bs ! i \<in> set bs"
        using ij by (simp_all add: nth_append)
      then show ?thesis using a by simp
    qed
  qed
qed

lemma aligned_snoc:
  "bs \<noteq> [] \<Longrightarrow> aligned (bs @ [b]) = (aligned bs \<and> Key (last (last bs)) \<noteq> Key (hd b))"
proof -
  assume ne: "bs \<noteq> []"
  then have l: "length bs = Suc (length bs - 1)" by simp
  have lb: "last bs = bs ! (length bs - 1)" using ne by (rule last_conv_nth)
  show ?thesis
  proof
    assume a: "aligned (bs @ [b])"
    have "aligned bs"
      unfolding aligned_def
    proof (intro allI impI)
      fix i assume "Suc i < length bs"
      then have "(bs @ [b]) ! i = bs ! i" "(bs @ [b]) ! Suc i = bs ! Suc i" "Suc i < length (bs @ [b])"
        by (simp_all add: nth_append)
      then show "Key (last (bs ! i)) \<noteq> Key (hd (bs ! Suc i))"
        using a unfolding aligned_def by metis
    qed
    moreover have "(bs @ [b]) ! (length bs - 1) = last bs" "(bs @ [b]) ! Suc (length bs - 1) = b"
      using ne lb by (simp_all add: nth_append)
    then have "Key (last (last bs)) \<noteq> Key (hd b)"
      using a ne unfolding aligned_def by (metis l length_append_singleton lessI)
    ultimately show "aligned bs \<and> Key (last (last bs)) \<noteq> Key (hd b)" ..
  next
    assume a: "aligned bs \<and> Key (last (last bs)) \<noteq> Key (hd b)"
    show "aligned (bs @ [b])"
      unfolding aligned_def
    proof (intro allI impI)
      fix i assume i: "Suc i < length (bs @ [b])"
      show "Key (last ((bs @ [b]) ! i)) \<noteq> Key (hd ((bs @ [b]) ! Suc i))"
      proof (cases "Suc i < length bs")
        case True
        then show ?thesis using a by (simp add: aligned_def nth_append)
      next
        case False
        then have "i = length bs - 1" using i by simp
        then have "(bs @ [b]) ! i = last bs" "(bs @ [b]) ! Suc i = b"
          using ne lb by (simp_all add: nth_append)
        then show ?thesis using a by simp
      qed
    qed
  qed
qed

definition batchInv :: "MapEntry list \<Rightarrow> mergeState \<Rightarrow> bool" where
  "batchInv p s =
     (concat (sent s) @ batch s = p
    \<and> (p \<noteq> [] \<longrightarrow> batch s \<noteq> [] \<and> prevKey s = Key (last p))
    \<and> (\<forall>b \<in> set (sent s). batchSize \<le> length b)
    \<and> sepd (sent s @ [batch s])
    \<and> aligned (sent s @ [batch s]))"

lemma sorted_snoc_le:
  assumes "sorted (map Key (p @ [m]))"
  shows "\<forall>x \<in> set p. Key x \<le> Key m"
  using assms by (auto simp: sorted_append)

lemma sorted_last_greatest:
  assumes "sorted (map Key p)" "x \<in> set p"
  shows "Key x \<le> Key (last p)"
proof -
  have "p \<noteq> []" using assms(2) by auto
  then have "p = butlast p @ [last p]" by simp
  then have "sorted (map Key (butlast p @ [last p]))" using assms(1) by simp
  then have "\<forall>y \<in> set (butlast p). Key y \<le> Key (last p)" by (rule sorted_snoc_le)
  moreover have "x \<in> set (butlast p) \<or> x = last p"
    using assms(2) \<open>p = butlast p @ [last p]\<close> by (metis Un_iff insert_iff list.set(2) set_append empty_iff list.set(1))
  ultimately show ?thesis by auto
qed

lemma batchInv_init: "batchInv [] initState"
  by (simp add: batchInv_def initState_def sepd_def aligned_def)

lemma batchInv_emit:
  assumes inv: "batchInv p s" and srt: "sorted (map Key (p @ [m]))"
  shows "batchInv (p @ [m]) (emit s m)"
proof -
  have cat: "concat (sent s) @ batch s = p" using inv by (simp add: batchInv_def)
  have pne: "p \<noteq> [] \<Longrightarrow> batch s \<noteq> [] \<and> prevKey s = Key (last p)"
    using inv by (simp add: batchInv_def)
  have big: "\<forall>b \<in> set (sent s). batchSize \<le> length b" using inv by (simp add: batchInv_def)
  have sp: "sepd (sent s @ [batch s])" using inv by (simp add: batchInv_def)
  have al: "aligned (sent s @ [batch s])" using inv by (simp add: batchInv_def)
  have sp': "sepd (sent s)" "\<forall>c \<in> set (sent s). \<forall>x \<in> set c. \<forall>y \<in> set (batch s). Key x < Key y"
    using sp by (simp_all add: sepd_snoc)
  have srtp: "sorted (map Key p)" using srt by (simp add: sorted_append)
  have le_m: "\<forall>x \<in> set p. Key x \<le> Key m" by (rule sorted_snoc_le [OF srt])
  have inp: "\<And>c x. c \<in> set (sent s @ [batch s]) \<Longrightarrow> x \<in> set c \<Longrightarrow> x \<in> set p"
    using cat by auto
  show ?thesis
  proof (cases "batchSize \<le> length (batch s) \<and> prevKey s \<noteq> Key m")
    case True
    have bne: "batch s \<noteq> []" using True batchSize_pos by auto
    then have pn: "p \<noteq> []" using cat by auto
    have pk: "prevKey s = Key (last p)" using pne pn by simp
    have lastp: "last p = last (batch s)" using cat bne by (metis last_appendR)
    have b: "batch (emit s m) = [m]" and st: "sent (emit s m) = sent s @ [batch s]"
      using True by (simp_all add: emit_batch emit_sent)
    have lt: "\<forall>c \<in> set (sent s @ [batch s]). \<forall>x \<in> set c. \<forall>y \<in> set [m]. Key x < Key y"
    proof (intro ballI)
      fix c x y assume c: "c \<in> set (sent s @ [batch s])" and x: "x \<in> set c" and y: "y \<in> set [m]"
      have xp: "x \<in> set p" by (rule inp [OF c x])
      have "Key x \<le> Key (last p)" by (rule sorted_last_greatest [OF srtp xp])
      moreover have "Key (last p) \<le> Key m" using le_m pn by simp
      moreover have "Key (last p) \<noteq> Key m" using True pk by simp
      ultimately show "Key x < Key y" using y by auto
    qed
    have c1: "concat (sent (emit s m)) @ batch (emit s m) = p @ [m]"
      using cat by (simp add: b st)
    have c2: "batch (emit s m) \<noteq> [] \<and> prevKey (emit s m) = Key (last (p @ [m]))"
      by (simp add: b emit_prevKey)
    have c3: "\<forall>b \<in> set (sent (emit s m)). batchSize \<le> length b"
      using big True by (simp add: st)
    have c4: "sepd (sent (emit s m) @ [batch (emit s m)])"
      unfolding b st by (rule sepd_snoc [THEN iffD2, OF conjI [OF sp lt]])
    have ne1: "sent s @ [batch s] \<noteq> []" by simp
    have "Key (last (last (sent s @ [batch s]))) \<noteq> Key (hd [m])"
      using True pk lastp by simp
    then have c5: "aligned (sent (emit s m) @ [batch (emit s m)])"
      unfolding b st using al by (intro aligned_snoc [OF ne1, THEN iffD2] conjI)
    show ?thesis unfolding batchInv_def using c1 c2 c3 c4 c5 by blast
  next
    case False
    have b: "batch (emit s m) = batch s @ [m]" and st: "sent (emit s m) = sent s"
      using False by (auto simp: emit_batch emit_sent)
    have sne: "sent s \<noteq> [] \<Longrightarrow> batch s \<noteq> []"
    proof -
      assume "sent s \<noteq> []"
      then obtain c where c: "c \<in> set (sent s)" by (cases "sent s") auto
      then have "c \<noteq> []" using big batchSize_pos by auto
      then have "p \<noteq> []" using cat c by auto
      then show "batch s \<noteq> []" using pne by simp
    qed
    have lt: "\<forall>c \<in> set (sent s). \<forall>x \<in> set c. \<forall>y \<in> set (batch s @ [m]). Key x < Key y"
    proof (intro ballI)
      fix c x y assume c: "c \<in> set (sent s)" and x: "x \<in> set c" and y: "y \<in> set (batch s @ [m])"
      show "Key x < Key y"
      proof (cases "y \<in> set (batch s)")
        case True
        then show ?thesis using sp'(2) c x by blast
      next
        case False
        then have ym: "y = m" using y by simp
        have "sent s \<noteq> []" using c by auto
        then have "batch s \<noteq> []" by (rule sne)
        then obtain y0 where y0: "y0 \<in> set (batch s)" by (cases "batch s") auto
        have "Key x < Key y0" using sp'(2) c x y0 by blast
        moreover have "Key y0 \<le> Key m" using le_m y0 cat by auto
        ultimately show ?thesis using ym by simp
      qed
    qed
    have c1: "concat (sent (emit s m)) @ batch (emit s m) = p @ [m]"
      using cat by (simp add: b st)
    have c2: "batch (emit s m) \<noteq> [] \<and> prevKey (emit s m) = Key (last (p @ [m]))"
      by (simp add: b emit_prevKey)
    have c3: "\<forall>b \<in> set (sent (emit s m)). batchSize \<le> length b"
      using big by (simp add: st)
    have c4: "sepd (sent (emit s m) @ [batch (emit s m)])"
      unfolding b st using sp'(1) lt by (simp add: sepd_snoc)
    have c5: "aligned (sent (emit s m) @ [batch (emit s m)])"
    proof (cases "sent s = []")
      case True
      then show ?thesis unfolding b st by (simp add: aligned_def)
    next
      case False
      have bne: "batch s \<noteq> []" by (rule sne [OF False])
      have "Key (last (last (sent s))) \<noteq> Key (hd (batch s))"
        using al False by (simp add: aligned_snoc)
      moreover have "aligned (sent s)" using al False by (simp add: aligned_snoc)
      moreover have "hd (batch s @ [m]) = hd (batch s)" using bne by simp
      ultimately show ?thesis unfolding b st using False by (simp add: aligned_snoc)
    qed
    show ?thesis unfolding batchInv_def using c1 c2 c3 c4 c5 by blast
  qed
qed

lemma batchInv_foldl:
  "sorted (map Key p) \<Longrightarrow> batchInv p (foldl emit initState p)"
proof (induction p rule: rev_induct)
  case Nil
  then show ?case by (simp add: batchInv_init)
next
  case (snoc m p)
  have "sorted (map Key p)" using snoc.prems by (simp add: sorted_append)
  then have "batchInv p (foldl emit initState p)" by (rule snoc.IH)
  then have "batchInv (p @ [m]) (emit (foldl emit initState p) m)"
    by (rule batchInv_emit [OF _ snoc.prems])
  then show ?case by simp
qed

lemma pushAll_append:
  "pushAll (a @ b) ph = (case pushAll a ph of Inl e \<Rightarrow> Inl e | Inr ph' \<Rightarrow> pushAll b ph')"
  by (induction a arbitrary: ph) (auto split: sum.splits)

lemma heap_Push_length: "heap_Push ph x = Inr ph' \<Longrightarrow> length ph' = Suc (length ph)"
proof -
  assume "heap_Push ph x = Inr ph'"
  then have "mset ph' = mset (ph @ [x])" by (auto simp: heap_Push_def dest: up_mset)
  then have "length ph' = length (ph @ [x])" by (rule mset_eq_length)
  then show ?thesis by simp
qed

lemma pushAll_length: "pushAll cs ph = Inr ph' \<Longrightarrow> length ph' = length ph + length cs"
  by (induction cs arbitrary: ph) (auto split: sum.splits dest!: heap_Push_length)

lemma heap_Push_nil_nonempty:
  assumes "ph \<noteq> []" "mapEntry x = None"
  shows "heap_Push ph x = Inl NilDeref"
proof -
  let ?h = "ph @ [x]"
  let ?j = "length ph"
  have j: "0 < ?j" using assms(1) by simp
  then have ne: "(?j - 1) div 2 \<noteq> ?j" by presburger
  have "Less ?h ?j ((?j - 1) div 2) = Inl NilDeref"
    using j assms(2) by (simp add: Less_def nth_append)
  then have "up ?h ?j = Inl NilDeref"
    by (subst up.simps) (simp only: Let_def ne if_False sum.case)
  then show ?thesis by (simp add: heap_Push_def)
qed

lemma heap_Push_onto_nil:
  assumes "mapEntry x = None"
  shows "heap_Push [x] y = Inl NilDeref"
proof -
  have "Less [x, y] 1 0 = Inl NilDeref"
    using assms by (simp add: Less_def split: option.splits)
  then have "up [x, y] 1 = Inl NilDeref"
    by (subst up.simps) (simp add: Let_def)
  then show ?thesis by (simp add: heap_Push_def)
qed

lemma heap_Push_empty: "heap_Push [] x = Inr [x]"
  by (simp add: heap_Push_def) (subst up.simps, simp)

lemma mergeLoop_nil_node:
  "mergeLoop [\<lparr>mapEntry = None, ch = []\<rparr>] st = (st, Some NilDeref)"
proof -
  let ?x = "\<lparr>mapEntry = None, ch = []\<rparr>"
  have "down [?x] 0 0 0 = Inr ([?x], False)" by (subst down.simps) simp
  then have "heap_Pop [?x] = Inr (?x, [])" by (simp add: heap_Pop_def Swap_def)
  then have "advance [?x] = Inr []" by (simp add: advance_def)
  then show ?thesis by (subst mergeLoop.simps) simp
qed

lemma shufflePostings_empty_stream:
  assumes emp: "[] \<in> set cs" and srt: "\<forall>c \<in> set cs. sorted (map Key c)"
  shows "shufflePostings cs = (initState, Some NilDeref)"
proof -
  have "\<exists>x \<in> set cs. x = []" using emp by simp
  from split_list_first_prop [OF this]
  obtain pre c post where cs: "cs = pre @ c # post" and c: "c = []"
    and pre: "\<forall>y \<in> set pre. y \<noteq> []"
    by blast
  let ?nil = "\<lparr>mapEntry = None, ch = []\<rparr>"
  have fn: "firstNode c = ?nil" using c by (simp add: firstNode_def)
  have "\<forall>y \<in> set pre. y \<noteq> [] \<and> sorted (map Key y)" using pre srt cs by simp
  moreover have "heapInv []" by (simp add: heapInv_def heapOrd_def)
  ultimately obtain ph1 where ph1: "pushAll pre [] = Inr ph1"
    using pushAll_correct [of "[]" pre] by blast
  have l1: "length ph1 = length pre" using pushAll_length [OF ph1] by simp
  have run: "pushAll cs [] = (case heap_Push ph1 ?nil of Inl e \<Rightarrow> Inl e | Inr ph' \<Rightarrow> pushAll post ph')"
    unfolding cs pushAll_append ph1 sum.case pushAll.simps(2) fn ..
  show ?thesis
  proof (cases "ph1 = []")
    case False
    have "heap_Push ph1 ?nil = Inl NilDeref" by (rule heap_Push_nil_nonempty [OF False]) simp
    then have "pushAll cs [] = Inl NilDeref" using run by simp
    then show ?thesis by (simp add: shufflePostings_def)
  next
    case True
    then have r1: "pushAll cs [] = pushAll post [?nil]" using run by (simp add: heap_Push_empty)
    show ?thesis
    proof (cases post)
      case Nil
      then have "pushAll cs [] = Inr [?nil]" using r1 by simp
      then show ?thesis by (simp add: shufflePostings_def mergeLoop_nil_node)
    next
      case (Cons d rest)
      have "heap_Push [?nil] (firstNode d) = Inl NilDeref" by (rule heap_Push_onto_nil) simp
      then have "pushAll cs [] = Inl NilDeref" unfolding r1 Cons pushAll.simps(2) by simp
      then show ?thesis by (simp add: shufflePostings_def)
    qed
  qed
qed

lemma shufflePostings_nonempty_streams:
  assumes "\<forall>c \<in> set cs. c \<noteq> [] \<and> sorted (map Key c)"
  shows "\<exists>ms. shufflePostings cs = (flush (foldl emit initState ms), None)
           \<and> mset ms = mset (concat cs) \<and> sorted (map Key ms)"
proof -
  have h0: "heapInv []" by (simp add: heapInv_def heapOrd_def)
  from pushAll_correct [OF h0 assms]
  obtain ph where ph: "pushAll cs [] = Inr ph" "heapInv ph"
    "heapEntries ph = heapEntries [] + mset (concat cs)" by blast
  from mergeLoop_correct [OF ph(2), of initState]
  obtain ms where ms: "mergeLoop ph initState = (foldl emit initState ms, None)"
    "mset ms = heapEntries ph" "sorted (map Key ms)" by blast
  have "shufflePostings cs = (flush (foldl emit initState ms), None)"
    using ph(1) ms(1) by (simp add: shufflePostings_def)
  moreover have "mset ms = mset (concat cs)" using ms(2) ph(3) by (simp add: heapEntries_def)
  ultimately show ?thesis using ms(3) by blast
qed

lemma sent_flush: "sent (flush s) = (if batch s \<noteq> [] then sent s @ [batch s] else sent s)"
  by (simp add: flush_def Let_def)

definition batchesOk :: "MapEntry list \<Rightarrow> MapEntry list list \<Rightarrow> bool" where
  "batchesOk p bs = (concat bs = p \<and> (\<forall>b \<in> set bs. b \<noteq> []) \<and> sepd bs \<and> aligned bs
      \<and> (\<forall>i. Suc i < length bs \<longrightarrow> batchSize \<le> length (bs ! i)))"

lemma batchInv_flush:
  assumes "batchInv p s"
  shows "batchesOk p (sent (flush s))"
proof -
  have cat: "concat (sent s) @ batch s = p" using assms by (simp add: batchInv_def)
  have pne: "p \<noteq> [] \<Longrightarrow> batch s \<noteq> []" using assms by (simp add: batchInv_def)
  have big: "\<forall>b \<in> set (sent s). batchSize \<le> length b" using assms by (simp add: batchInv_def)
  have sp: "sepd (sent s @ [batch s])" using assms by (simp add: batchInv_def)
  have al: "aligned (sent s @ [batch s])" using assms by (simp add: batchInv_def)
  have bne: "\<forall>b \<in> set (sent s). b \<noteq> []" using big batchSize_pos by auto
  show ?thesis
  proof (cases "batch s = []")
    case True
    then have "p = []" using pne cat by auto
    then have "sent s = []" using cat bne by (cases "sent s") auto
    then show ?thesis using True \<open>p = []\<close>
      by (simp add: sent_flush batchesOk_def sepd_def aligned_def)
  next
    case False
    have "\<forall>i. Suc i < length (sent s @ [batch s]) \<longrightarrow> batchSize \<le> length ((sent s @ [batch s]) ! i)"
      using big by (auto simp: nth_append)
    then show ?thesis using False cat bne sp al
      by (simp add: sent_flush batchesOk_def)
  qed
qed

lemma shufflePostings_batches:
  assumes "\<forall>c \<in> set cs. sorted (map Key c)"
  shows "\<exists>p. batchesOk p (sent (fst (shufflePostings cs))) \<and> sorted (map Key p)
      \<and> (snd (shufflePostings cs) = None \<longrightarrow> mset p = mset (concat cs))"
proof (cases "[] \<in> set cs")
  case True
  have "shufflePostings cs = (initState, Some NilDeref)"
    by (rule shufflePostings_empty_stream [OF True assms])
  then have "batchesOk [] (sent (fst (shufflePostings cs)))" "snd (shufflePostings cs) \<noteq> None"
    by (simp_all add: initState_def batchesOk_def sepd_def aligned_def)
  then show ?thesis by (intro exI [of _ "[]"]) auto
next
  case False
  then have "\<forall>c \<in> set cs. c \<noteq> [] \<and> sorted (map Key c)" using assms by auto
  from shufflePostings_nonempty_streams [OF this]
  obtain ms where ms: "shufflePostings cs = (flush (foldl emit initState ms), None)"
    "mset ms = mset (concat cs)" "sorted (map Key ms)" by blast
  have "batchesOk ms (sent (flush (foldl emit initState ms)))"
    by (rule batchInv_flush [OF batchInv_foldl [OF ms(3)]])
  then have "batchesOk ms (sent (fst (shufflePostings cs)))" by (simp only: ms(1) fst_conv)
  then show ?thesis using ms(2,3) by blast
qed

section \<open>The claims about shufflePostings\<close>

text \<open>
  Non-decreasing by key: every entry compares \<open>\<le>\<close> (by \<open>bytes.Compare\<close>) with every
  later one.
\<close>

definition keySorted :: "MapEntry list \<Rightarrow> bool" where
  "keySorted xs = sorted_wrt (\<lambda>a b. bytes_Compare (Key a) (Key b) \<le> 0) xs"

lemma keySorted_sorted: "keySorted xs = sorted (map Key xs)"
  by (simp add: keySorted_def sorted_map bytes_Compare_le)

text \<open>
  C1. For every list of input streams, each non-decreasing by key, the entries of all
  batches that \<open>shufflePostings\<close> sends to the output queue, concatenated in the order
  sent, are non-decreasing by key under \<open>bytes.Compare\<close>. (When no stream is empty the
  call returns and these entries are exactly the entries of the streams; with an empty
  stream it panics before it sends anything.)
\<close>

theorem shufflePostings_output_sorted:
  assumes "\<forall>c \<in> set mapEntryChs. keySorted c"
  shows "keySorted (concat (sent (fst (shufflePostings mapEntryChs))))
       \<and> ((\<forall>c \<in> set mapEntryChs. c \<noteq> []) \<longrightarrow>
            snd (shufflePostings mapEntryChs) = None
          \<and> mset (concat (sent (fst (shufflePostings mapEntryChs)))) = mset (concat mapEntryChs))"
proof -
  have srt: "\<forall>c \<in> set mapEntryChs. sorted (map Key c)"
    using assms by (simp add: keySorted_sorted)
  from shufflePostings_batches [OF srt]
  obtain p where p: "batchesOk p (sent (fst (shufflePostings mapEntryChs)))" "sorted (map Key p)"
    "snd (shufflePostings mapEntryChs) = None \<longrightarrow> mset p = mset (concat mapEntryChs)" by auto
  have cat: "concat (sent (fst (shufflePostings mapEntryChs))) = p"
    using p(1) by (simp add: batchesOk_def)
  have c1: "keySorted (concat (sent (fst (shufflePostings mapEntryChs))))"
    unfolding cat keySorted_sorted by (rule p(2))
  have c2: "(\<forall>c \<in> set mapEntryChs. c \<noteq> []) \<longrightarrow>
            snd (shufflePostings mapEntryChs) = None
          \<and> mset (concat (sent (fst (shufflePostings mapEntryChs)))) = mset (concat mapEntryChs)"
  proof
    assume "\<forall>c \<in> set mapEntryChs. c \<noteq> []"
    then have "\<forall>c \<in> set mapEntryChs. c \<noteq> [] \<and> sorted (map Key c)" using srt by simp
    from shufflePostings_nonempty_streams [OF this]
    have "snd (shufflePostings mapEntryChs) = None" by auto
    then show "snd (shufflePostings mapEntryChs) = None
          \<and> mset (concat (sent (fst (shufflePostings mapEntryChs)))) = mset (concat mapEntryChs)"
      using p(3) cat by simp
  qed
  show ?thesis using c1 c2 ..
qed

text \<open>The example of the spec: streams with keys \<open>[a, c]\<close>, \<open>[b, c]\<close> and \<open>[a]\<close>.\<close>

definition ex_a :: MapEntry where "ex_a = \<lparr>Key = [0x61], Payload = []\<rparr>"
definition ex_b :: MapEntry where "ex_b = \<lparr>Key = [0x62], Payload = []\<rparr>"
definition ex_c :: MapEntry where "ex_c = \<lparr>Key = [0x63], Payload = []\<rparr>"

lemma ex_eval: "shufflePostings [[ex_a, ex_c], [ex_b, ex_c], [ex_a]] =
   (\<lparr>batch = [ex_a, ex_a, ex_b, ex_c, ex_c], prevKey = [0x63], plistLen = 2,
     sent = [[ex_a, ex_a, ex_b, ex_c, ex_c]],
     addUidCalls = [([0x61], 2), ([0x62], 1), ([0x63], 2)]\<rparr>, None)"
  by code_simp

theorem shufflePostings_output_sorted_witness:
  "list_all keySorted [[ex_a, ex_c], [ex_b, ex_c], [ex_a]]
   \<and> keySorted (concat (sent (fst (shufflePostings [[ex_a, ex_c], [ex_b, ex_c], [ex_a]]))))
   \<and> snd (shufflePostings [[ex_a, ex_c], [ex_b, ex_c], [ex_a]]) = None
   \<and> mset (concat (sent (fst (shufflePostings [[ex_a, ex_c], [ex_b, ex_c], [ex_a]]))))
       = mset (concat [[ex_a, ex_c], [ex_b, ex_c], [ex_a]])"
proof -
  have h: "list_all keySorted [[ex_a, ex_c], [ex_b, ex_c], [ex_a]]"
    by (simp add: keySorted_def ex_a_def ex_b_def ex_c_def)
  then have h': "\<forall>c \<in> set [[ex_a, ex_c], [ex_b, ex_c], [ex_a]]. keySorted c"
    by (simp only: list_all_iff)
  have ne: "\<forall>c \<in> set [[ex_a, ex_c], [ex_b, ex_c], [ex_a]]. c \<noteq> []" by simp
  show ?thesis
    using h shufflePostings_output_sorted [OF h'] ne by blast
qed

text \<open>The batches a call has sent to the output queue, in the order sent.\<close>

definition emittedBatches :: "MapEntry list list \<Rightarrow> MapEntry list list" where
  "emittedBatches mapEntryChs = sent (fst (shufflePostings mapEntryChs))"

lemma sepd_unique:
  assumes "sepd bs" "i < length bs" "j < length bs"
    "x \<in> set (bs ! i)" "y \<in> set (bs ! j)" "Key x = Key y"
  shows "i = j"
proof (rule ccontr)
  assume "i \<noteq> j"
  then consider "i < j" | "j < i" by linarith
  then show False
  proof cases
    case 1
    then have "Key x < Key y" using assms unfolding sepd_def by blast
    then show False using assms(6) by simp
  next
    case 2
    then have "Key y < Key x" using assms unfolding sepd_def by blast
    then show False using assms(6) by simp
  qed
qed

text \<open>
  C2. For every list of input streams, each non-decreasing by key, and every key among
  the merged entries: exactly one of the batches sent holds entries with that key, so no
  key group is split across two batches. A batch followed by another one was closed
  after it had reached \<open>batchSize\<close> entries and at a key boundary: its last key differs
  from the first key of the next batch. When the call returns, the batches hold exactly
  the entries of the streams, so all entries with one key are in that one batch.
\<close>

theorem shufflePostings_key_group_in_one_batch:
  assumes "\<forall>c \<in> set mapEntryChs. keySorted c"
  shows "(\<forall>k. k \<in> Key ` set (concat (emittedBatches mapEntryChs)) \<longrightarrow>
            (\<exists>!i. i < length (emittedBatches mapEntryChs)
                  \<and> k \<in> Key ` set (emittedBatches mapEntryChs ! i)))
       \<and> (\<forall>i. Suc i < length (emittedBatches mapEntryChs) \<longrightarrow>
              batchSize \<le> length (emittedBatches mapEntryChs ! i)
            \<and> bytes_Compare (Key (last (emittedBatches mapEntryChs ! i)))
                             (Key (hd (emittedBatches mapEntryChs ! Suc i))) \<noteq> 0)
       \<and> (snd (shufflePostings mapEntryChs) = None \<longrightarrow>
              mset (concat (emittedBatches mapEntryChs)) = mset (concat mapEntryChs))"
proof -
  let ?bs = "emittedBatches mapEntryChs"
  have srt: "\<forall>c \<in> set mapEntryChs. sorted (map Key c)"
    using assms by (simp add: keySorted_sorted)
  from shufflePostings_batches [OF srt]
  obtain p where p: "batchesOk p ?bs" "sorted (map Key p)"
    "snd (shufflePostings mapEntryChs) = None \<longrightarrow> mset p = mset (concat mapEntryChs)"
    unfolding emittedBatches_def by auto
  have cat: "concat ?bs = p" and sp: "sepd ?bs" and al: "aligned ?bs"
    and big: "\<forall>i. Suc i < length ?bs \<longrightarrow> batchSize \<le> length (?bs ! i)"
    using p(1) by (simp_all add: batchesOk_def)
  have c1: "\<forall>k. k \<in> Key ` set (concat ?bs) \<longrightarrow> (\<exists>!i. i < length ?bs \<and> k \<in> Key ` set (?bs ! i))"
  proof (intro allI impI)
    fix k assume "k \<in> Key ` set (concat ?bs)"
    then obtain x b where x: "b \<in> set ?bs" "x \<in> set b" "Key x = k" by auto
    from x(1) obtain i where i: "i < length ?bs" "?bs ! i = b" by (metis in_set_conv_nth)
    show "\<exists>!i. i < length ?bs \<and> k \<in> Key ` set (?bs ! i)"
    proof (rule ex1I [of _ i])
      show "i < length ?bs \<and> k \<in> Key ` set (?bs ! i)" using i x by auto
    next
      fix j assume j: "j < length ?bs \<and> k \<in> Key ` set (?bs ! j)"
      then obtain y where y: "y \<in> set (?bs ! j)" "Key y = k" by auto
      have "x \<in> set (?bs ! i)" using i x by simp
      from sepd_unique [OF sp _ _ y(1) this] j i(1) y(2) x(3) show "j = i" by simp
    qed
  qed
  have c2: "\<forall>i. Suc i < length ?bs \<longrightarrow> batchSize \<le> length (?bs ! i)
            \<and> bytes_Compare (Key (last (?bs ! i))) (Key (hd (?bs ! Suc i))) \<noteq> 0"
    using big al by (simp add: aligned_def bytes_Compare_eq)
  have c3: "snd (shufflePostings mapEntryChs) = None \<longrightarrow> mset (concat ?bs) = mset (concat mapEntryChs)"
    using p(3) cat by simp
  show ?thesis using c1 c2 c3 by (intro conjI)
qed

theorem shufflePostings_key_group_in_one_batch_witness:
  "list_all keySorted [[ex_a, ex_c], [ex_b, ex_c], [ex_a]]
   \<and> (\<exists>!i. i < length (emittedBatches [[ex_a, ex_c], [ex_b, ex_c], [ex_a]])
          \<and> Key ex_c \<in> Key ` set (emittedBatches [[ex_a, ex_c], [ex_b, ex_c], [ex_a]] ! i))
   \<and> mset (concat (emittedBatches [[ex_a, ex_c], [ex_b, ex_c], [ex_a]]))
       = mset (concat [[ex_a, ex_c], [ex_b, ex_c], [ex_a]])"
proof -
  let ?chs = "[[ex_a, ex_c], [ex_b, ex_c], [ex_a]]"
  have h: "list_all keySorted ?chs"
    by (simp add: keySorted_def ex_a_def ex_b_def ex_c_def)
  then have h': "\<forall>c \<in> set ?chs. keySorted c" by (simp only: list_all_iff)
  have r: "shufflePostings ?chs =
     (\<lparr>batch = [ex_a, ex_a, ex_b, ex_c, ex_c], prevKey = [0x63], plistLen = 2,
       sent = [[ex_a, ex_a, ex_b, ex_c, ex_c]],
       addUidCalls = [([0x61], 2), ([0x62], 1), ([0x63], 2)]\<rparr>, None)"
    by (rule ex_eval)
  have k: "Key ex_c \<in> Key ` set (concat (emittedBatches ?chs))"
    by (simp add: emittedBatches_def r)
  have n: "snd (shufflePostings ?chs) = None" by (simp add: r)
  show ?thesis
    using h shufflePostings_key_group_in_one_batch [OF h'] k n by blast
qed

text \<open>
  C10. For every list of input streams, each non-decreasing by key: \<open>st\<close> being the
  state in which the merge loop ended (by the end of the streams, or by the panic on an
  empty stream, having sent nothing), every batch sent in the loop has at least 10000
  entries; the final flush adds at most the last batch, so every batch but the last has
  at least 10000 entries; and no batch sent is empty.
\<close>

theorem shufflePostings_batch_sizes:
  assumes "\<forall>c \<in> set mapEntryChs. keySorted c"
  shows "\<exists>st. (shufflePostings mapEntryChs = (flush st, None)
              \<or> shufflePostings mapEntryChs = (st, Some NilDeref) \<and> sent st = [])
           \<and> (\<forall>b \<in> set (sent st). 10000 \<le> length b)
           \<and> (\<forall>b \<in> set (emittedBatches mapEntryChs). b \<noteq> [])
           \<and> (\<forall>i. Suc i < length (emittedBatches mapEntryChs) \<longrightarrow>
                  10000 \<le> length (emittedBatches mapEntryChs ! i))"
proof -
  have srt: "\<forall>c \<in> set mapEntryChs. sorted (map Key c)"
    using assms by (simp add: keySorted_sorted)
  from shufflePostings_batches [OF srt]
  obtain p where p: "batchesOk p (emittedBatches mapEntryChs)"
    unfolding emittedBatches_def by auto
  have all: "\<forall>b \<in> set (emittedBatches mapEntryChs). b \<noteq> []"
    and but_last: "\<forall>i. Suc i < length (emittedBatches mapEntryChs) \<longrightarrow>
                  10000 \<le> length (emittedBatches mapEntryChs ! i)"
    using p by (simp_all add: batchesOk_def batchSize_def)
  show ?thesis
  proof (cases "[] \<in> set mapEntryChs")
    case True
    have "shufflePostings mapEntryChs = (initState, Some NilDeref)"
      by (rule shufflePostings_empty_stream [OF True srt])
    moreover have "sent initState = []" by (simp add: initState_def)
    ultimately show ?thesis using all but_last by (intro exI [of _ initState]) simp
  next
    case False
    then have "\<forall>c \<in> set mapEntryChs. c \<noteq> [] \<and> sorted (map Key c)" using srt by auto
    from shufflePostings_nonempty_streams [OF this]
    obtain ms where ms: "shufflePostings mapEntryChs = (flush (foldl emit initState ms), None)"
      "sorted (map Key ms)" by blast
    have "batchInv ms (foldl emit initState ms)" by (rule batchInv_foldl [OF ms(2)])
    then have "\<forall>b \<in> set (sent (foldl emit initState ms)). 10000 \<le> length b"
      by (simp add: batchInv_def batchSize_def)
    then show ?thesis using ms(1) all but_last
      by (intro exI [of _ "foldl emit initState ms"]) simp
  qed
qed

theorem shufflePostings_batch_sizes_witness:
  "list_all keySorted [[ex_a, ex_c], [ex_b, ex_c], [ex_a]]
   \<and> (\<exists>st. (shufflePostings [[ex_a, ex_c], [ex_b, ex_c], [ex_a]] = (flush st, None)
              \<or> shufflePostings [[ex_a, ex_c], [ex_b, ex_c], [ex_a]] = (st, Some NilDeref) \<and> sent st = [])
           \<and> (\<forall>b \<in> set (sent st). 10000 \<le> length b)
           \<and> (\<forall>b \<in> set (emittedBatches [[ex_a, ex_c], [ex_b, ex_c], [ex_a]]). b \<noteq> [])
           \<and> (\<forall>i. Suc i < length (emittedBatches [[ex_a, ex_c], [ex_b, ex_c], [ex_a]]) \<longrightarrow>
                  10000 \<le> length (emittedBatches [[ex_a, ex_c], [ex_b, ex_c], [ex_a]] ! i)))"
proof -
  let ?chs = "[[ex_a, ex_c], [ex_b, ex_c], [ex_a]]"
  have h: "list_all keySorted ?chs"
    by (simp add: keySorted_def ex_a_def ex_b_def ex_c_def)
  then have h': "\<forall>c \<in> set ?chs. keySorted c" by (simp only: list_all_iff)
  show ?thesis by (rule conjI [OF h shufflePostings_batch_sizes [OF h']])
qed

end
